theory Spec2Isabelle
  imports Main
begin

section \<open>JavaScript values that the modelled functions exchange\<close>

text \<open>
  Only the shapes the code builds or inspects are distinguished: \<open>undefined\<close>, strings
  (the empty result \<open>""\<close> of a timed-out promise, the context strings of
  \<open>giveContext\<close>), numbers, \<open>Error\<close> objects with their message, plain objects
  (the \<open>meta\<close> argument of \<open>promisify\<close>), and thenables. A thenable is given by its fate:
  it never settles, or at a stated time it is fulfilled with a value or rejected with a
  reason. The times are milliseconds on the clock of the call that receives the thenable.
\<close>

datatype jsval =
    JUndefined
  | JStr string
  | JNum int
  | JError string
  | JObj "(string \<times> jsval) list"
  | JThenable fate
and fate =
    StaysPending
  | FulfilsAt nat jsval
  | RejectsAt nat jsval

fun thenable :: "jsval \<Rightarrow> bool" where
  "thenable (JThenable f) = True"
| "thenable v = False"

text \<open>
  The decimal rendering of a whole number inside a template literal (for numbers of
  fewer than 22 digits, which JavaScript prints without an exponent).
\<close>

fun digits :: "nat \<Rightarrow> string" where
  "digits n =
     (if n < 10 then [''0123456789'' ! n]
      else digits (n div 10) @ [''0123456789'' ! (n mod 10)])"

definition show_int :: "int \<Rightarrow> string" where
  "show_int i = (if i < 0 then CHR ''-'' # digits (nat (- i)) else digits (nat i))"

section \<open>\<open>promisify\<close> (part_000, lines 13-50)\<close>

text \<open>
  \<^verbatim>\<open>
  export function promisify(fn, timeout = 5000,
                            meta = { fnName: "anonymous", fnArgs: "unknown" }) {
    return (...args) => {
      return new Promise((resolve, reject) => {
        let settled = false
        const Resolve = (value) => { if (!settled) { settled = true; resolve(value) } }
        const Reject = (reason) => { if (!settled) { settled = true; reject(reason) } }
        setTimeout(() => {
          if (!settled) {
            settled = true
            resolve("")
            defaultErrorHandler(new Error(`Timeout: ${timeout}ms exceeded.`), meta)
          }
        }, timeout)
        fn(Resolve, Reject, ...args)
      })
    }
  }
  \<close>
  The state of one call of the returned function: the closure variable \<open>settled\<close>, the
  state of the promise, and the calls of the error handler so far (oldest first). A
  promise is \<open>Pending\<close> and free, or it is still pending but bound to a thenable that
  \<open>resolve\<close> was called with (\<open>Following\<close>), or it is fulfilled or rejected.
\<close>

datatype outcome = Pending | Following jsval | Fulfilled jsval | Rejected jsval

record promise_state =
  settled :: bool
  outcome :: outcome
  reports :: "(jsval \<times> jsval) list"

text \<open>
  The \<open>resolve\<close> and \<open>reject\<close> functions of the promise constructor: the first call
  decides the promise or binds it, later calls do nothing. \<open>resolve\<close> called with a
  thenable binds the promise to it: the promise stays pending and takes the thenable's
  outcome when the thenable settles, if it ever does. \<open>reject\<close> rejects with its argument
  whatever that is.
\<close>

definition native_resolve :: "jsval \<Rightarrow> promise_state \<Rightarrow> promise_state" where
  "native_resolve v s =
     (if outcome s = Pending
      then s\<lparr>outcome := (if thenable v then Following v else Fulfilled v)\<rparr>
      else s)"

definition native_reject :: "jsval \<Rightarrow> promise_state \<Rightarrow> promise_state" where
  "native_reject r s = (if outcome s = Pending then s\<lparr>outcome := Rejected r\<rparr> else s)"

text \<open>
  What has become, at time \<open>now\<close>, of a promise that was resolved with \<open>v\<close>: a thenable
  that has been fulfilled passes its value to \<open>resolve\<close> again, so a thenable fulfilled
  with a thenable is followed in turn.
\<close>

fun follow :: "nat \<Rightarrow> jsval \<Rightarrow> outcome" where
  "follow now (JThenable StaysPending) = Following (JThenable StaysPending)"
| "follow now (JThenable (FulfilsAt t v)) =
     (if t \<le> now then follow now v else Following (JThenable (FulfilsAt t v)))"
| "follow now (JThenable (RejectsAt t e)) =
     (if t \<le> now then Rejected e else Following (JThenable (RejectsAt t e)))"
| "follow now v = Fulfilled v"

definition advance :: "nat \<Rightarrow> promise_state \<Rightarrow> promise_state" where
  "advance now s = (case outcome s of Following v \<Rightarrow> s\<lparr>outcome := follow now v\<rparr> | _ \<Rightarrow> s)"

text \<open>
  The error handler is recorded by its calls. What a handler installed with
  \<open>setErrorHandler\<close> does when it is called does not reach the promise: in the timer
  callback the call of the handler is the last statement.
\<close>

definition defaultErrorHandler :: "jsval \<Rightarrow> jsval \<Rightarrow> promise_state \<Rightarrow> promise_state" where
  "defaultErrorHandler err ctx s = s\<lparr>reports := reports s @ [(err, ctx)]\<rparr>"

definition Resolve :: "jsval \<Rightarrow> promise_state \<Rightarrow> promise_state" where
  "Resolve v s = (if \<not> settled s then native_resolve v (s\<lparr>settled := True\<rparr>) else s)"

definition Reject :: "jsval \<Rightarrow> promise_state \<Rightarrow> promise_state" where
  "Reject r s = (if \<not> settled s then native_reject r (s\<lparr>settled := True\<rparr>) else s)"

text \<open>The \<open>timeout\<close> argument is taken to be a whole number (of milliseconds).\<close>

definition timeout_error :: "int \<Rightarrow> jsval" where
  "timeout_error timeout = JError (''Timeout: '' @ show_int timeout @ ''ms exceeded.'')"

definition on_timeout :: "int \<Rightarrow> jsval \<Rightarrow> promise_state \<Rightarrow> promise_state" where
  "on_timeout timeout meta s =
     (if \<not> settled s
      then defaultErrorHandler (timeout_error timeout) meta
             (native_resolve (JStr []) (s\<lparr>settled := True\<rparr>))
      else s)"

text \<open>
  The delay after which \<open>setTimeout(callback, timeout)\<close> runs the callback. The browser
  converts \<open>timeout\<close> to a signed 32-bit integer (modulo 2 to the power 32), takes a negative
  result as 0, and raises a delay below 4 ms to 4 ms when the call is made from a timer
  callback nested more than five deep (\<open>nesting\<close> is the timer nesting level at the
  call, 0 outside timer callbacks).
\<close>

definition timer_delay :: "nat \<Rightarrow> int \<Rightarrow> nat" where
  "timer_delay nesting timeout =
     (let long = (timeout + 2 ^ 31) mod 2 ^ 32 - 2 ^ 31;
          d = (if long < 0 then 0 else nat long)
      in if 5 < nesting \<and> d < 4 then 4 else d)"

text \<open>
  What the wrapped function \<open>fn\<close> does with the two callbacks it receives: the calls it
  makes before it returns or throws, the exception it then throws if any, the calls made
  by microtasks it has queued (they run when the task that made the call ends, before any
  timer callback), and the calls made by later tasks, each stamped with the milliseconds
  elapsed since the call.
\<close>

datatype callback = CallResolve jsval | CallReject jsval

record fn_behaviour =
  sync_calls :: "callback list"
  throws :: "jsval option"
  micro_calls :: "callback list"
  later_calls :: "(nat \<times> callback) list"

fun invoke_callback :: "callback \<Rightarrow> promise_state \<Rightarrow> promise_state" where
  "invoke_callback (CallResolve v) s = Resolve v s"
| "invoke_callback (CallReject r) s = Reject r s"

definition invoke_callbacks :: "callback list \<Rightarrow> promise_state \<Rightarrow> promise_state" where
  "invoke_callbacks cs s = foldl (\<lambda>s c. invoke_callback c s) s cs"

definition new_promise :: promise_state where
  "new_promise = \<lparr>settled = False, outcome = Pending, reports = []\<rparr>"

text \<open>
  The executor: the timer is registered, then \<open>fn\<close> runs. An exception that leaves the
  executor rejects the promise (the promise constructor does that); \<open>settled\<close> is not
  touched on that path.
\<close>

definition executor :: "fn_behaviour \<Rightarrow> promise_state" where
  "executor fn =
     (let s = invoke_callbacks (sync_calls fn) new_promise
      in case throws fn of None \<Rightarrow> s | Some e \<Rightarrow> native_reject e s)"

definition default_timeout :: int where
  "default_timeout = 5000"

definition default_meta :: jsval where
  "default_meta = JObj [(''fnName'', JStr ''anonymous''), (''fnArgs'', JStr ''unknown'')]"

fun timeout_of :: "int option \<Rightarrow> int" where
  "timeout_of None = default_timeout"
| "timeout_of (Some t) = t"

fun meta_of :: "jsval option \<Rightarrow> jsval" where
  "meta_of None = default_meta"
| "meta_of (Some m) = m"

text \<open>
  The promise at a moment: when the call of the returned function returns (the executor
  has run; the timer is registered and has not fired, whatever its delay), or once the
  event loop has run every task that falls due within \<open>now\<close> milliseconds of the call.
  Tasks are taken to run at the moment they fall due; a real event loop may run them
  later, never earlier. The later calls happen in the order of their stamps. The timer
  callback runs when its delay has elapsed: after the later calls stamped before the
  delay and before those stamped from the delay on, which is the order in which timers
  that \<open>fn\<close> registers itself would run, the timer of \<open>promisify\<close> being registered
  before \<open>fn\<close> is called.
\<close>

datatype moment = AtReturn | After nat

definition promisify ::
  "nat \<Rightarrow> fn_behaviour \<Rightarrow> int option \<Rightarrow> jsval option \<Rightarrow> moment \<Rightarrow> promise_state" where
  "promisify nesting fn timeout_arg meta_arg moment =
     (let timeout = timeout_of timeout_arg;
          meta = meta_of meta_arg;
          delay = timer_delay nesting timeout;
          calls = sort_key fst (later_calls fn)
      in case moment of
           AtReturn \<Rightarrow> executor fn
         | After now \<Rightarrow>
             (let early = map snd (filter (\<lambda>(t, c). t < delay \<and> t \<le> now) calls);
                  late = map snd (filter (\<lambda>(t, c). delay \<le> t \<and> t \<le> now) calls);
                  s = invoke_callbacks early (invoke_callbacks (micro_calls fn) (executor fn))
              in advance now
                   (if now < delay then s
                    else invoke_callbacks late (on_timeout timeout meta s))))"

text \<open>
  The three things that can reach the promise after the executor has run, for statements
  about any order of them.
\<close>

datatype pevent = Invoke callback | TimerFires

fun fire :: "int \<Rightarrow> jsval \<Rightarrow> pevent \<Rightarrow> promise_state \<Rightarrow> promise_state" where
  "fire t m (Invoke c) s = invoke_callback c s"
| "fire t m TimerFires s = on_timeout t m s"





definition silent_fn :: fn_behaviour where
  "silent_fn = \<lparr>sync_calls = [], throws = None, micro_calls = [],
                later_calls = [(80, CallResolve (JStr ''late''))]\<rparr>"

definition handing_over_fn :: fn_behaviour where
  "handing_over_fn = \<lparr>sync_calls = [CallResolve (JThenable StaysPending)], throws = None,
                      micro_calls = [], later_calls = []\<rparr>"

section \<open>The operation queue: \<open>createQueue\<close> (index.js, lines 19-75; the same in part_000, lines 65-121)\<close>

text \<open>
  \<^verbatim>\<open>
  function createQueue() {
    const priorityQueue = []
    const mainQueue = []
    const deferredQueue = []
    let isRunning = false

    async function runQueue() {
      if (isRunning) return
      isRunning = true
      while (priorityQueue.length > 0 || mainQueue.length > 0) {
        if (priorityQueue.length > 0) {
          const { fn, args } = priorityQueue.shift()
          await fn(...args)
        } else if (mainQueue.length > 0) {
          const fn = mainQueue.shift()
          await fn()
        }
      }
      if (deferredQueue.length > 0 && mainQueue.length === 0 && priorityQueue.length === 0) {
        while (deferredQueue.length > 0) {
          const { fn, args } = deferredQueue.shift()
          await fn(...args)
        }
      }
      isRunning = false
    }
    function addToQueue(fn) { mainQueue.push(fn); runQueue() }
    function prioritize(fn, args = []) { priorityQueue.push({ fn, args }); runQueue() }
    function defer(fn, args = []) {
      deferredQueue.push({ fn, args })
      if (!isRunning) { runQueue() }
    }
    return { addToQueue, prioritize, defer }
  }
  \<close>
  A work item is a function the runner calls and awaits. What the model keeps of it is its
  name and its body: the sequence of things the call does that the queue can observe. The
  body runs synchronously up to the first \<open>Await\<close>; each \<open>Await\<close> is a point where the
  item is suspended until the event loop resumes it. A \<open>Throw\<close> is an exception that leaves
  the item (thrown before the first \<open>Await\<close>, or a rejection of the promise it returned).
\<close>

datatype lane = Priority | Main | Deferred

datatype item = Item (name: string) (body: "act list")
  and act =
      Call lane item
    | Await
    | Throw jsval
    | Effect string
    | Report jsval jsval
    | ConsoleError jsval

text \<open>
  \<open>Call l it\<close> is a call of \<open>prioritize\<close>, \<open>addToQueue\<close> or \<open>defer\<close> made by the running
  item itself; \<open>Effect\<close> is the underlying action (a DOM mutation, a user callback);
  \<open>Report e c\<close> is a call of the error handler with error \<open>e\<close> and context \<open>c\<close>;
  \<open>ConsoleError e\<close> is \<open>console.error(e)\<close>.

  The trace records, oldest first, what happened on one queue.
\<close>

datatype entry =
    Enqueued lane string
  | Started lane string
  | Finished string
  | Did string
  | Reported jsval jsval
  | Printed jsval
  | Aborted string jsval

text \<open>
  Where the one activation of \<open>runQueue\<close> stands: there is none (\<open>Idle\<close>); it is
  suspended at the \<open>await\<close> of the first loop or of the deferred loop, on the named item,
  which is itself suspended at an \<open>Await\<close> with the rest of its body to run (\<open>Some rest\<close>)
  or has returned (\<open>None\<close>); or it has ended with the exception of an item (\<open>Dead\<close>),
  which leaves \<open>isRunning\<close> set.
\<close>

datatype phase = MainLoop | DeferredLoop

datatype runner = Idle | Awaiting phase string "act list option" | Dead string jsval

record queue =
  priorityQueue :: "item list"
  mainQueue :: "item list"
  deferredQueue :: "item list"
  isRunning :: bool
  runner :: runner
  trace :: "entry list"

definition createQueue :: queue where
  "createQueue = \<lparr>priorityQueue = [], mainQueue = [], deferredQueue = [],
                   isRunning = False, runner = Idle, trace = []\<rparr>"

definition logged :: "entry \<Rightarrow> queue \<Rightarrow> queue" where
  "logged e q = q\<lparr>trace := trace q @ [e]\<rparr>"

fun push :: "lane \<Rightarrow> item \<Rightarrow> queue \<Rightarrow> queue" where
  "push Priority it q = logged (Enqueued Priority (name it)) (q\<lparr>priorityQueue := priorityQueue q @ [it]\<rparr>)"
| "push Main it q = logged (Enqueued Main (name it)) (q\<lparr>mainQueue := mainQueue q @ [it]\<rparr>)"
| "push Deferred it q = logged (Enqueued Deferred (name it)) (q\<lparr>deferredQueue := deferredQueue q @ [it]\<rparr>)"

text \<open>
  Running a body up to its next suspension. A \<open>Call\<close> made by the running item only
  appends to the lane: the runner is active, so the \<open>runQueue()\<close> inside \<open>addToQueue\<close> and
  \<open>prioritize\<close> returns at its first line and \<open>defer\<close> does not call it (lemma
  \<open>api_call_while_running\<close> below).
\<close>

datatype stop = Suspended "act list" | Returned | Threw jsval

fun run_acts :: "act list \<Rightarrow> queue \<Rightarrow> stop \<times> queue" where
  "run_acts [] q = (Returned, q)"
| "run_acts (Call l it # rest) q = run_acts rest (push l it q)"
| "run_acts (Await # rest) q = (Suspended rest, q)"
| "run_acts (Throw e # rest) q = (Threw e, q)"
| "run_acts (Effect x # rest) q = run_acts rest (logged (Did x) q)"
| "run_acts (Report e c # rest) q = run_acts rest (logged (Reported e c) q)"
| "run_acts (ConsoleError e # rest) q = run_acts rest (logged (Printed e) q)"

fun settle :: "phase \<Rightarrow> string \<Rightarrow> stop \<times> queue \<Rightarrow> queue" where
  "settle ph n (Suspended rest, q) = q\<lparr>runner := Awaiting ph n (Some rest)\<rparr>"
| "settle ph n (Returned, q) = q\<lparr>runner := Awaiting ph n None\<rparr>"
| "settle ph n (Threw e, q) = logged (Aborted n e) (q\<lparr>runner := Dead n e\<rparr>)"

definition invoke :: "phase \<Rightarrow> lane \<Rightarrow> item \<Rightarrow> queue \<Rightarrow> queue" where
  "invoke ph l it q = settle ph (name it) (run_acts (body it) (logged (Started l (name it)) q))"

text \<open>The head of the deferred loop (\<open>while (deferredQueue.length > 0)\<close>) and the exit.\<close>

definition deferred_loop :: "queue \<Rightarrow> queue" where
  "deferred_loop q =
     (if length (deferredQueue q) > 0
      then invoke DeferredLoop Deferred (hd (deferredQueue q)) (q\<lparr>deferredQueue := tl (deferredQueue q)\<rparr>)
      else q\<lparr>isRunning := False, runner := Idle\<rparr>)"

text \<open>
  The head of the first loop, and what follows it when its condition is false. Inside the
  loop the test \<open>else if (mainQueue.length > 0)\<close> is true whenever it is reached, by the
  condition of the loop.
\<close>

definition main_loop :: "queue \<Rightarrow> queue" where
  "main_loop q =
     (if length (priorityQueue q) > 0 \<or> length (mainQueue q) > 0 then
        (if length (priorityQueue q) > 0
         then invoke MainLoop Priority (hd (priorityQueue q)) (q\<lparr>priorityQueue := tl (priorityQueue q)\<rparr>)
         else invoke MainLoop Main (hd (mainQueue q)) (q\<lparr>mainQueue := tl (mainQueue q)\<rparr>))
      else if length (deferredQueue q) > 0 \<and> length (mainQueue q) = 0 \<and> length (priorityQueue q) = 0
      then deferred_loop q
      else q\<lparr>isRunning := False, runner := Idle\<rparr>)"

definition runQueue :: "queue \<Rightarrow> queue" where
  "runQueue q = (if isRunning q then q else main_loop (q\<lparr>isRunning := True\<rparr>))"

definition addToQueue :: "item \<Rightarrow> queue \<Rightarrow> queue" where
  "addToQueue fn q = runQueue (push Main fn q)"

definition prioritize :: "item \<Rightarrow> queue \<Rightarrow> queue" where
  "prioritize fn q = runQueue (push Priority fn q)"

text \<open>\<open>defer\<close> of the source (the name is taken in Isabelle).\<close>

definition defer_item :: "item \<Rightarrow> queue \<Rightarrow> queue" where
  "defer_item fn q = (let q' = push Deferred fn q in if \<not> isRunning q' then runQueue q' else q')"

text \<open>
  The event loop resumes the suspended activation: the item in flight runs on to its next
  suspension, or, when it has returned, the \<open>await\<close> of \<open>runQueue\<close> completes and the loop
  it stands in goes round again.
\<close>

definition resume :: "queue \<Rightarrow> queue" where
  "resume q =
     (case runner q of
        Awaiting ph n (Some rest) \<Rightarrow> settle ph n (run_acts rest q)
      | Awaiting ph n None \<Rightarrow>
          (case ph of
             MainLoop \<Rightarrow> main_loop (logged (Finished n) q)
           | DeferredLoop \<Rightarrow> deferred_loop (logged (Finished n) q))
      | _ \<Rightarrow> q)"

text \<open>
  What can happen to a queue between two suspensions: code outside the item in flight
  calls one of the three functions (the next call of a chain, a DOM event listener set up
  by \<open>on\<close>), or the event loop resumes the runner.
\<close>

datatype event = ApiCall lane item | Resume

fun step :: "event \<Rightarrow> queue \<Rightarrow> queue" where
  "step (ApiCall Priority it) q = prioritize it q"
| "step (ApiCall Main it) q = addToQueue it q"
| "step (ApiCall Deferred it) q = defer_item it q"
| "step Resume q = resume q"

definition run :: "event list \<Rightarrow> queue \<Rightarrow> queue" where
  "run es q = foldl (\<lambda>q e. step e q) q es"

subsection \<open>The queue of the refactor (\<open>createQueue\<close>, part_000, lines 506-546)\<close>

text \<open>
  \<^verbatim>\<open>
  async function runQueue() {
    if (isRunning) return
    isRunning = true
    while (mainQueue.length > 0) {
      const fn = mainQueue.shift()
      await fn()
    }
    if (deferredQueue.length > 0 && mainQueue.length === 0) {
      while (deferredQueue.length > 0) {
        const { fn, args } = deferredQueue.shift()
        await eachArgument(fn, args)
      }
    }
    isRunning = false
  }
  function addToQueue(fn) { mainQueue.push(fn); runQueue() }
  function defer(fn, args = []) {
    deferredQueue.push({ fn, args })
    if (!isRunning) { runQueue() }
  }
  \<close>
  The refactor has no priority lane and no \<open>prioritize\<close>; the deferred loop is the same
  (what \<open>eachArgument(fn, args)\<close> does is the body of the deferred item). The queue record
  is shared; its priority lane is never read here.
\<close>

definition main_loop_refactor :: "queue \<Rightarrow> queue" where
  "main_loop_refactor q =
     (if length (mainQueue q) > 0
      then invoke MainLoop Main (hd (mainQueue q)) (q\<lparr>mainQueue := tl (mainQueue q)\<rparr>)
      else if length (deferredQueue q) > 0 \<and> length (mainQueue q) = 0
      then deferred_loop q
      else q\<lparr>isRunning := False, runner := Idle\<rparr>)"

definition runQueue_refactor :: "queue \<Rightarrow> queue" where
  "runQueue_refactor q = (if isRunning q then q else main_loop_refactor (q\<lparr>isRunning := True\<rparr>))"

definition addToQueue_refactor :: "item \<Rightarrow> queue \<Rightarrow> queue" where
  "addToQueue_refactor fn q = runQueue_refactor (push Main fn q)"

definition defer_refactor :: "item \<Rightarrow> queue \<Rightarrow> queue" where
  "defer_refactor fn q =
     (let q' = push Deferred fn q in if \<not> isRunning q' then runQueue_refactor q' else q')"

definition resume_refactor :: "queue \<Rightarrow> queue" where
  "resume_refactor q =
     (case runner q of
        Awaiting ph n (Some rest) \<Rightarrow> settle ph n (run_acts rest q)
      | Awaiting ph n None \<Rightarrow>
          (case ph of
             MainLoop \<Rightarrow> main_loop_refactor (logged (Finished n) q)
           | DeferredLoop \<Rightarrow> deferred_loop (logged (Finished n) q))
      | _ \<Rightarrow> q)"

datatype event_refactor = CallAddToQueue item | CallDefer item | ResumeRunner

fun step_refactor :: "event_refactor \<Rightarrow> queue \<Rightarrow> queue" where
  "step_refactor (CallAddToQueue it) q = addToQueue_refactor it q"
| "step_refactor (CallDefer it) q = defer_refactor it q"
| "step_refactor ResumeRunner q = resume_refactor q"

definition run_refactor :: "event_refactor list \<Rightarrow> queue \<Rightarrow> queue" where
  "run_refactor es q = foldl (\<lambda>q e. step_refactor e q) q es"

text \<open>The event of the queue of index.js that an event of the refactor's queue corresponds to.\<close>

fun of_refactor :: "event_refactor \<Rightarrow> event" where
  "of_refactor (CallAddToQueue it) = ApiCall Main it"
| "of_refactor (CallDefer it) = ApiCall Deferred it"
| "of_refactor ResumeRunner = Resume"

subsection \<open>Reading a trace\<close>

fun lane_items :: "lane \<Rightarrow> queue \<Rightarrow> item list" where
  "lane_items Priority q = priorityQueue q"
| "lane_items Main q = mainQueue q"
| "lane_items Deferred q = deferredQueue q"

fun enqueued_of :: "lane \<Rightarrow> entry \<Rightarrow> string list" where
  "enqueued_of l (Enqueued l' n) = (if l' = l then [n] else [])"
| "enqueued_of l _ = []"

fun started_of :: "lane \<Rightarrow> entry \<Rightarrow> string list" where
  "started_of l (Started l' n) = (if l' = l then [n] else [])"
| "started_of l _ = []"

text \<open>The names of the items pushed on a lane, and of those taken from it, in order.\<close>

definition enqueued :: "lane \<Rightarrow> entry list \<Rightarrow> string list" where
  "enqueued l tr = concat (map (enqueued_of l) tr)"

definition started :: "lane \<Rightarrow> entry list \<Rightarrow> string list" where
  "started l tr = concat (map (started_of l) tr)"

text \<open>
  Reading a trace from the left: \<open>Free\<close> when every item started has finished, \<open>Busy n\<close>
  while \<open>n\<close> is started and not finished, \<open>Overlap\<close> as soon as an item starts while
  another is in flight or an item finishes that is not the one in flight.
\<close>

datatype flight = Free | Busy string | Overlap

fun watch :: "flight \<Rightarrow> entry \<Rightarrow> flight" where
  "watch Free (Started l n) = Busy n"
| "watch (Busy m) (Started l n) = Overlap"
| "watch (Busy m) (Finished n) = (if m = n then Free else Overlap)"
| "watch Free (Finished n) = Overlap"
| "watch Overlap e = Overlap"
| "watch s e = s"

definition in_flight :: "entry list \<Rightarrow> flight" where
  "in_flight tr = foldl watch Free tr"

text \<open>What a body does up to its next suspension, read off the body.\<close>

fun pushed :: "lane \<Rightarrow> act list \<Rightarrow> item list" where
  "pushed l [] = []"
| "pushed l (Call l' it # rest) = (if l' = l then it # pushed l rest else pushed l rest)"
| "pushed l (Await # rest) = []"
| "pushed l (Throw e # rest) = []"
| "pushed l (Effect x # rest) = pushed l rest"
| "pushed l (Report e c # rest) = pushed l rest"
| "pushed l (ConsoleError e # rest) = pushed l rest"

fun acts_log :: "act list \<Rightarrow> entry list" where
  "acts_log [] = []"
| "acts_log (Call l it # rest) = Enqueued l (name it) # acts_log rest"
| "acts_log (Await # rest) = []"
| "acts_log (Throw e # rest) = []"
| "acts_log (Effect x # rest) = Did x # acts_log rest"
| "acts_log (Report e c # rest) = Reported e c # acts_log rest"
| "acts_log (ConsoleError e # rest) = Printed e # acts_log rest"

fun acts_stop :: "act list \<Rightarrow> stop" where
  "acts_stop [] = Returned"
| "acts_stop (Await # rest) = Suspended rest"
| "acts_stop (Throw e # rest) = Threw e"
| "acts_stop (a # rest) = acts_stop rest"

text \<open>
  The bookkeeping that every reachable queue satisfies: \<open>isRunning\<close> is set exactly while
  an activation exists, an idle queue has an empty deferred lane, each lane holds exactly
  the items pushed on it and not yet taken, in order, and the item in flight is the one
  the runner awaits.
\<close>

definition fifo :: "lane \<Rightarrow> queue \<Rightarrow> bool" where
  "fifo l q = (started l (trace q) @ map name (lane_items l q) = enqueued l (trace q))"

fun flight_of :: "runner \<Rightarrow> flight" where
  "flight_of Idle = Free"
| "flight_of (Awaiting ph n c) = Busy n"
| "flight_of (Dead n e) = Busy n"

definition consistent :: "queue \<Rightarrow> bool" where
  "consistent q =
     ((isRunning q = (runner q \<noteq> Idle)) \<and> (runner q \<noteq> Idle \<or> deferredQueue q = [])
      \<and> fifo Priority q \<and> fifo Main q \<and> fifo Deferred q
      \<and> in_flight (trace q) = flight_of (runner q))"

definition ready :: "queue \<Rightarrow> bool" where
  "ready q = (isRunning q \<and> fifo Priority q \<and> fifo Main q \<and> fifo Deferred q
              \<and> in_flight (trace q) = Free)"

text \<open>
  A sequence of events in which the functions of the queue are called from outside only
  while the runner is active, so that no call starts a new activation.
\<close>

fun no_restart :: "event list \<Rightarrow> queue \<Rightarrow> bool" where
  "no_restart [] q = True"
| "no_restart (e # es) q = ((e = Resume \<or> isRunning q) \<and> no_restart es (step e q))"

text \<open>
  Bodies that never call the queue themselves (\<open>quiet\<close>), and queues and events that hold
  only items with such bodies and nothing on the priority lane.
\<close>

fun is_call :: "act \<Rightarrow> bool" where
  "is_call (Call l it) = True"
| "is_call a = False"

definition quiet :: "act list \<Rightarrow> bool" where
  "quiet as = (filter is_call as = [])"

fun quiet_runner :: "runner \<Rightarrow> bool" where
  "quiet_runner (Awaiting ph n (Some rest)) = quiet rest"
| "quiet_runner r = True"

definition calm :: "queue \<Rightarrow> bool" where
  "calm q = (priorityQueue q = []
             \<and> list_all (\<lambda>it. quiet (body it)) (mainQueue q)
             \<and> list_all (\<lambda>it. quiet (body it)) (deferredQueue q)
             \<and> quiet_runner (runner q))"

fun quiet_event :: "event_refactor \<Rightarrow> bool" where
  "quiet_event (CallAddToQueue it) = quiet (body it)"
| "quiet_event (CallDefer it) = quiet (body it)"
| "quiet_event ResumeRunner = True"

text \<open>The runner has left its first loop: it is in the deferred loop, or it has ended.\<close>

fun past_main_loop :: "runner \<Rightarrow> bool" where
  "past_main_loop (Awaiting ph n c) = (ph = DeferredLoop)"
| "past_main_loop Idle = True"
| "past_main_loop (Dead n e) = True"

subsection \<open>Concrete queues used as inputs\<close>

text \<open>
  The chain \<open>p.defer(f1).defer(f2)\<close> on a fresh queue, where \<open>f1\<close> calls \<open>p.text(..)\<close> on
  the same queue: two work items on the main lane that each call \<open>defer\<close>, then the two
  deferred functions. \<open>draining_queue\<close> is the queue once \<open>f1\<close> has been called.
\<close>

definition text_item :: item where
  "text_item = Item ''text'' [Effect ''text'']"

definition f1_item :: item where
  "f1_item = Item ''f1'' [Call Main text_item]"

definition f2_item :: item where
  "f2_item = Item ''f2'' []"

definition defer1_item :: item where
  "defer1_item = Item ''defer1'' [Call Deferred f1_item]"

definition defer2_item :: item where
  "defer2_item = Item ''defer2'' [Call Deferred f2_item]"

definition later_item :: item where
  "later_item = Item ''later'' []"

definition draining_queue :: queue where
  "draining_queue =
     run [ApiCall Main defer1_item, ApiCall Main defer2_item, Resume, Resume] createQueue"

section \<open>The chain facade: \<open>createApplyFunc\<close>, \<open>giveContext\<close>\<close>

text \<open>
  \<^verbatim>\<open>
  function createApplyFunc(addToQueue, proxy) {
    const isThenable = (value) => value && typeof value.then === "function"
    return function applyFunc(fn, context) {
      return (...args) => {
        addToQueue(async () => {
          try {
            const resolvedArgs = []
            for (const arg of args) {
              resolvedArgs.push(isThenable(arg) ? await arg : arg)
            }
            const result = fn(...resolvedArgs)
            if (isThenable(result)) { await result }
          } catch (error) {
            defaultErrorHandler(error, context)     // index.js: console.error(error)
          }
        })
        return proxy()
      }
    }
  }
  \<close>
  An argument is a plain value or a promise that is fulfilled or rejected later. The
  operation \<open>fn\<close> is given by what its call sets going, in order, and by whether what it
  returns is thenable. What stands before the first \<open>Await\<close> happens during the call, and
  a \<open>Throw\<close> there is an exception of the call. What stands after the first \<open>Await\<close>
  happens later. If \<open>fn\<close> returns a thenable, the work item awaits it, and a \<open>Throw\<close>
  after an \<open>Await\<close> is the rejection of that thenable (an async function never throws at
  its caller: its exceptions are rejections, and so stand after an \<open>Await\<close>). If \<open>fn\<close>
  returns no thenable, nothing awaits the later work: it is not part of the work item,
  and an exception in it reaches no \<open>catch\<close>.
\<close>

datatype arg = Plain jsval | Fulfils jsval | Rejects jsval


text \<open>\<open>isThenable(arg) ? await arg : arg\<close>: awaiting suspends, and a rejection is thrown.\<close>

fun resolve_arg :: "arg \<Rightarrow> act list" where
  "resolve_arg (Plain v) = []"
| "resolve_arg (Fulfils v) = [Await]"
| "resolve_arg (Rejects e) = [Await, Throw e]"

record operation =
  op_name :: string
  fn_acts :: "act list"
  returns_thenable :: bool

text \<open>\<open>try { ... } catch (error) { handler }\<close>: the first exception ends the block.\<close>

fun try_catch :: "(jsval \<Rightarrow> act list) \<Rightarrow> act list \<Rightarrow> act list" where
  "try_catch h [] = []"
| "try_catch h (Throw e # rest) = h e"
| "try_catch h (a # rest) = a # try_catch h rest"

text \<open>What a call does before it returns or throws, or suspends for the first time.\<close>

definition sync_part :: "act list \<Rightarrow> act list" where
  "sync_part as = takeWhile (\<lambda>a. a \<noteq> Await) as"

text \<open>
  The body of the \<open>try\<close> block, and the work item given to \<open>addToQueue\<close>. The result
  of \<open>fn\<close> is awaited only if it is thenable.
\<close>

definition operation_acts :: "operation \<Rightarrow> arg list \<Rightarrow> act list" where
  "operation_acts fn args =
     concat (map resolve_arg args)
     @ (if returns_thenable fn then fn_acts fn @ [Await] else sync_part (fn_acts fn))"

definition work_item :: "(jsval \<Rightarrow> act list) \<Rightarrow> operation \<Rightarrow> arg list \<Rightarrow> item" where
  "work_item h fn args = Item (op_name fn) (try_catch h (operation_acts fn args))"

text \<open>
  The \<open>catch\<close> block of part_000 calls the error handler installed at that moment
  (\<open>setErrorHandler\<close> replaces it). The call is recorded as a \<open>Report\<close>; \<open>handler\<close> gives
  what the handler's call does then. The block does not await what the handler returns,
  so only what the call does before it returns or throws belongs to the work item.
\<close>

definition catch_block :: "(jsval \<Rightarrow> jsval \<Rightarrow> act list) \<Rightarrow> jsval \<Rightarrow> jsval \<Rightarrow> act list" where
  "catch_block handler context error = Report error context # sync_part (handler error context)"

text \<open>
  The function a chainable operation is: it gives the work item to \<open>addToQueue\<close> and then
  returns the proxy. The variant of part_000 (lines 123-145) reports to the error handler
  with the context, here the handler the module starts with, which prints and returns;
  index.js (lines 77-99) prints the error.
\<close>

definition applyFunc :: "operation \<Rightarrow> jsval \<Rightarrow> arg list \<Rightarrow> 'p \<Rightarrow> queue \<Rightarrow> 'p \<times> queue" where
  "applyFunc fn context args proxy q =
     (let q' = addToQueue (work_item (\<lambda>error. [Report error context]) fn args) q
      in (proxy, q'))"


text \<open>
  \<^verbatim>\<open>
  function giveContext(methodName, selector) {
    const message =
      methodName === "$" ? `$${selector}`
      : methodName === "$$" ? `$$${selector}`
      : `The method: ${methodName} called on: ${selector}`
    return message
  }
  \<close>
  A method name that was not passed is \<open>undefined\<close> (\<open>None\<close>).
\<close>

definition giveContext :: "string option \<Rightarrow> string \<Rightarrow> string" where
  "giveContext methodName selector =
     (if methodName = Some ''$'' then ''$'' @ selector
      else if methodName = Some ''$$'' then ''$$'' @ selector
      else ''The method: '' @ (case methodName of None \<Rightarrow> ''undefined'' | Some m \<Rightarrow> m)
           @ '' called on: '' @ selector)"

text \<open>
  Reading a body as a whole: its suspensions, its exceptions, the reports it makes, and
  the queue once all of it has run.
\<close>

fun awaits :: "act list \<Rightarrow> nat" where
  "awaits [] = 0"
| "awaits (Await # rest) = Suc (awaits rest)"
| "awaits (a # rest) = awaits rest"

fun first_throw :: "act list \<Rightarrow> jsval option" where
  "first_throw [] = None"
| "first_throw (Throw e # rest) = Some e"
| "first_throw (a # rest) = first_throw rest"



fun finish_acts :: "act list \<Rightarrow> queue \<Rightarrow> queue" where
  "finish_acts [] q = q"
| "finish_acts (Call l it # rest) q = finish_acts rest (push l it q)"
| "finish_acts (Await # rest) q = finish_acts rest q"
| "finish_acts (Throw e # rest) q = q"
| "finish_acts (Effect x # rest) q = finish_acts rest (logged (Did x) q)"
| "finish_acts (Report e c # rest) q = finish_acts rest (logged (Reported e c) q)"
| "finish_acts (ConsoleError e # rest) q = finish_acts rest (logged (Printed e) q)"

text \<open>The loop the runner returns to when the item it awaited in phase \<open>ph\<close> has finished.\<close>

fun loop_of :: "phase \<Rightarrow> queue \<Rightarrow> queue" where
  "loop_of MainLoop q = main_loop q"
| "loop_of DeferredLoop q = deferred_loop q"



definition failing_op :: operation where
  "failing_op = \<lparr>op_name = ''html'', fn_acts = [Throw (JError ''boom'')], returns_thenable = False\<rparr>"

definition html_context :: jsval where
  "html_context = JStr (giveContext (Some ''html'') ''#a'')"

text \<open>
  A chain of main-lane items called in one go on a fresh queue, each given by its name and
  its latency: the item suspends that many times and then performs its effect. The events
  are the calls of \<open>addToQueue\<close>, one after the other, followed by as many resumptions as
  the items need (\<open>chain_events\<close> for the queue of index.js, \<open>chain_events_refactor\<close> for
  the queue of the refactor). \<open>executed\<close> keeps of a trace what the runner and the items
  did, that is everything but the pushes.
\<close>

definition latency_item :: "string \<times> nat \<Rightarrow> item" where
  "latency_item s = Item (fst s) (replicate (snd s) Await @ [Effect (fst s)])"

fun is_enqueued :: "entry \<Rightarrow> bool" where
  "is_enqueued (Enqueued l n) = True"
| "is_enqueued e = False"

definition executed :: "entry list \<Rightarrow> entry list" where
  "executed tr = filter (\<lambda>e. \<not> is_enqueued e) tr"

definition chain_events :: "(string \<times> nat) list \<Rightarrow> event list" where
  "chain_events specs =
     map (\<lambda>s. ApiCall Main (latency_item s)) specs
     @ replicate (sum_list (map (\<lambda>s. Suc (snd s)) specs)) Resume"

definition chain_events_refactor :: "(string \<times> nat) list \<Rightarrow> event_refactor list" where
  "chain_events_refactor specs =
     map (\<lambda>s. CallAddToQueue (latency_item s)) specs
     @ replicate (sum_list (map (\<lambda>s. Suc (snd s)) specs)) ResumeRunner"

definition in_order :: "(string \<times> nat) list \<Rightarrow> entry list" where
  "in_order specs = concat (map (\<lambda>s. [Started Main (fst s), Did (fst s), Finished (fst s)]) specs)"

section \<open>The target resolver: \<open>getDOMElement\<close>, \<open>addProxy\<close>, \<open>createProxy\<close>\<close>

text \<open>
  \<^verbatim>\<open>
  function getDOMElement(item, sanitize = true, all = false) {
    return typeof item === "string" && item.trim().startsWith("<")
      ? createDOMFromString(item, sanitize)
      : item instanceof HTMLElement ? [item]
      : all ? Array.from(document.querySelectorAll(item))
      : [document.querySelector(item)]
  }
  function createDOMFromString(string, sanitize = true) {
    const div = document.createElement("div")
    sanitize ? div.setHTML(string) : (div.innerHTML = string)
    return Array.from(div.children)
  }
  \<close>
  An element handle is an element of the document or a new element that the parser made
  (given by its markup), which is in no document. The browser is a parameter: which
  elements of the document a selector matches, in document order (\<open>None\<close> when the string
  is not a selector and the query throws), and the top-level elements that \<open>setHTML\<close> and
  the \<open>innerHTML\<close> setter leave in a new \<open>div\<close>.
\<close>

datatype element = InDocument nat | Detached string

record browser =
  query_all :: "string \<Rightarrow> nat list option"
  set_html :: "string \<Rightarrow> string list"
  inner_html :: "string \<Rightarrow> string list"

datatype dom_error = SyntaxError string | Error string

definition querySelectorAll :: "browser \<Rightarrow> string \<Rightarrow> dom_error + element list" where
  "querySelectorAll d sel =
     (case query_all d sel of None \<Rightarrow> Inl (SyntaxError sel) | Some ns \<Rightarrow> Inr (map InDocument ns))"

definition querySelector :: "browser \<Rightarrow> string \<Rightarrow> dom_error + element option" where
  "querySelector d sel =
     (case query_all d sel of
        None \<Rightarrow> Inl (SyntaxError sel)
      | Some [] \<Rightarrow> Inr None
      | Some (n # ns) \<Rightarrow> Inr (Some (InDocument n)))"

text \<open>
  \<open>trim\<close> and \<open>startsWith\<close> of JavaScript strings. A string is modelled as a sequence
  of code units below U+0100 (strings with other characters are outside the model); of
  the white space and line terminators that \<open>trim\<close> removes, these are the tab, the line
  feed, the vertical tab, the form feed, the carriage return, the space and the no-break
  space U+00A0.
\<close>

definition is_space :: "char \<Rightarrow> bool" where
  "is_space c = (c \<in> set [CHR 0x09, CHR 0x0A, CHR 0x0B, CHR 0x0C, CHR 0x0D, CHR 0x20, CHR 0xA0])"

definition trim :: "string \<Rightarrow> string" where
  "trim s = rev (dropWhile is_space (rev (dropWhile is_space s)))"

definition startsWith :: "string \<Rightarrow> string \<Rightarrow> bool" where
  "startsWith s p = (take (length p) s = p)"

text \<open>
  What is given as \<open>item\<close>: a string; an element that is an \<open>HTMLElement\<close>; a node list;
  or any other value (an element that is not an \<open>HTMLElement\<close>, such as an SVG element, an
  array, \<open>null\<close>), given by the string that the query converts it to. index.js passes a
  node list on to the query like any other value, as the string \<open>[object NodeList]\<close>. A
  parameter that was not passed, or was passed as \<open>undefined\<close>, is \<open>None\<close> and takes its
  default.
\<close>

datatype input = Str string | Elem element | NodeList "element list" | Other string

fun or_default :: "bool option \<Rightarrow> bool \<Rightarrow> bool" where
  "or_default None d = d"
| "or_default (Some b) d = b"

definition createDOMFromString :: "browser \<Rightarrow> string \<Rightarrow> bool option \<Rightarrow> element list" where
  "createDOMFromString d string sanitize =
     (if or_default sanitize True then map Detached (set_html d string)
      else map Detached (inner_html d string))"

definition getDOMElement ::
  "browser \<Rightarrow> input \<Rightarrow> bool option \<Rightarrow> bool option \<Rightarrow> dom_error + element option list" where
  "getDOMElement d item sanitize all =
     (case item of
        Str s \<Rightarrow>
          if startsWith (trim s) ''<''
          then Inr (map Some (createDOMFromString d s (Some (or_default sanitize True))))
          else if or_default all False
          then (case querySelectorAll d s of Inl e \<Rightarrow> Inl e | Inr es \<Rightarrow> Inr (map Some es))
          else (case querySelector d s of Inl e \<Rightarrow> Inl e | Inr e \<Rightarrow> Inr [e])
      | Elem e \<Rightarrow> Inr [Some e]
      | NodeList es \<Rightarrow>
          if or_default all False
          then (case querySelectorAll d ''[object NodeList]'' of Inl e \<Rightarrow> Inl e | Inr es' \<Rightarrow> Inr (map Some es'))
          else (case querySelector d ''[object NodeList]'' of Inl e \<Rightarrow> Inl e | Inr e \<Rightarrow> Inr [e])
      | Other s \<Rightarrow>
          if or_default all False
          then (case querySelectorAll d s of Inl e \<Rightarrow> Inl e | Inr es \<Rightarrow> Inr (map Some es))
          else (case querySelector d s of Inl e \<Rightarrow> Inl e | Inr e \<Rightarrow> Inr [e]))"

text \<open>
  The refactor (\<open>getDOMElement(item, options)\<close>) takes the two flags from an options
  object, accepts node lists, and lets \<open>createDOMFromString\<close> apply the default of
  \<open>sanitize\<close>.
\<close>

record options =
  opt_sanitize :: "bool option"
  opt_all :: "bool option"

definition getDOMElement_refactor ::
  "browser \<Rightarrow> input \<Rightarrow> options \<Rightarrow> dom_error + element option list" where
  "getDOMElement_refactor d item opts =
     (case item of
        Str s \<Rightarrow>
          if startsWith (trim s) ''<''
          then Inr (map Some (createDOMFromString d s (opt_sanitize opts)))
          else if or_default (opt_all opts) False
          then (case querySelectorAll d s of Inl e \<Rightarrow> Inl e | Inr es \<Rightarrow> Inr (map Some es))
          else (case querySelector d s of Inl e \<Rightarrow> Inl e | Inr e \<Rightarrow> Inr [e])
      | Elem e \<Rightarrow> Inr [Some e]
      | NodeList es \<Rightarrow> Inr (map Some es)
      | Other s \<Rightarrow>
          if or_default (opt_all opts) False
          then (case querySelectorAll d s of Inl e \<Rightarrow> Inl e | Inr es \<Rightarrow> Inr (map Some es))
          else (case querySelector d s of Inl e \<Rightarrow> Inl e | Inr e \<Rightarrow> Inr [e]))"

text \<open>
  \<^verbatim>\<open>
  function addProxy(type, string) {                       // index.js
    const element = getDOMElement(string, false, type === "$$")
    if (!element[0]) {
      throw new Error(`No element found for selector: ${string}`)
    }
    return addMethods(type, string, element[1] ? element : element[0])
  }
  function createProxy(type, selector, fixed = false) {   // the refactor
    const elements = getDOMElement(selector, { all: type === "$$", sanitize: false })
    if (!elements[0]) {
      console.warn(`No elements found for selector: ${selector}`)
    }
    return addMethods(selector, elements)
  }
  \<close>
  A facade is given by its type (index.js), its target, its selector and its own queue;
  \<open>createProxy\<close> returns the facade together with what it printed with \<open>console.warn\<close>.
\<close>

datatype target = Single "element option" | Many "element option list"

record facade =
  facade_kind :: "string option"
  facade_target :: target
  facade_selector :: string
  facade_queue :: queue

definition first_is_falsy :: "element option list \<Rightarrow> bool" where
  "first_is_falsy es = (case es of [] \<Rightarrow> True | e # _ \<Rightarrow> e = None)"

definition second_is_truthy :: "element option list \<Rightarrow> bool" where
  "second_is_truthy es = (case es of a # b # _ \<Rightarrow> b \<noteq> None | _ \<Rightarrow> False)"

definition addMethods :: "string \<Rightarrow> string \<Rightarrow> target \<Rightarrow> facade" where
  "addMethods type sel t =
     \<lparr>facade_kind = Some type, facade_target = t, facade_selector = sel,
      facade_queue = createQueue\<rparr>"

definition addMethods_refactor :: "string \<Rightarrow> element option list \<Rightarrow> facade" where
  "addMethods_refactor sel t =
     \<lparr>facade_kind = None, facade_target = Many t, facade_selector = sel,
      facade_queue = createQueue\<rparr>"

definition addProxy :: "browser \<Rightarrow> string \<Rightarrow> string \<Rightarrow> dom_error + facade" where
  "addProxy d type string =
     (case getDOMElement d (Str string) (Some False) (Some (type = ''$$'')) of
        Inl e \<Rightarrow> Inl e
      | Inr element \<Rightarrow>
          if first_is_falsy element
          then Inl (Error (''No element found for selector: '' @ string))
          else Inr (addMethods type string
                      (if second_is_truthy element then Many element else Single (hd element))))"

definition createProxy :: "browser \<Rightarrow> string \<Rightarrow> string \<Rightarrow> dom_error + string list \<times> facade" where
  "createProxy d type sel =
     (case getDOMElement_refactor d (Str sel) \<lparr>opt_sanitize = Some False, opt_all = Some (type = ''$$'')\<rparr> of
        Inl e \<Rightarrow> Inl e
      | Inr elements \<Rightarrow>
          Inr (if first_is_falsy elements then [''No elements found for selector: '' @ sel] else [],
               addMethods_refactor sel elements))"

text \<open>A page on which no selector matches anything, with a parser that knows \<open><div>\<close>.\<close>

definition empty_page :: browser where
  "empty_page = \<lparr>query_all = (\<lambda>sel. Some []),
                  set_html = (\<lambda>s. if s = ''<div>'' then [''<div></div>''] else []),
                  inner_html = (\<lambda>s. if s = ''<div>'' then [''<div></div>''] else [])\<rparr>"

section \<open>The methods of a facade: \<open>toOneOrMany\<close>, \<open>makeMethod\<close> (part_000, lines 181-192)\<close>

text \<open>
  \<^verbatim>\<open>
  const toOneOrMany = (func) => {
    return isSingle ? func(target) : target.forEach((el) => func(el))
  }
  const makeMethod = (action, context) => {
    return applyFunc((...args) => {
      toOneOrMany((el) => action(el, ...args))
    }, giveContext(context, selector))
  }
  \<close>
  The function that \<open>makeMethod\<close> gives to \<open>applyFunc\<close> calls the action on the target,
  or on each element of the target in turn, and has a block body without \<open>return\<close>: it
  returns \<open>undefined\<close> whatever the action returns. So of an action that is async, or that
  returns a promise, the operation holds only what each call does before it returns; the
  promise is dropped. The action is given by what its call on an element sets going, with
  the conventions of \<open>fn_acts\<close>.
\<close>

fun toOneOrMany :: "target \<Rightarrow> (element option \<Rightarrow> act list) \<Rightarrow> act list" where
  "toOneOrMany (Single el) func = func el"
| "toOneOrMany (Many els) func = concat (map func els)"

definition makeMethod ::
  "string \<Rightarrow> (element option \<Rightarrow> act list) \<Rightarrow> string option \<Rightarrow> string \<Rightarrow> target
     \<Rightarrow> arg list \<Rightarrow> 'p \<Rightarrow> queue \<Rightarrow> 'p \<times> queue" where
  "makeMethod nm action context selector tgt =
     applyFunc \<lparr>op_name = nm, fn_acts = toOneOrMany tgt (\<lambda>el. sync_part (action el)),
                returns_thenable = False\<rparr>
       (JStr (giveContext context selector))"


definition async_action :: "element option \<Rightarrow> act list" where
  "async_action el = [Effect ''do'', Await, Throw (JError ''boom'')]"

definition throwing_handler :: "jsval \<Rightarrow> jsval \<Rightarrow> act list" where
  "throwing_handler error context = [Throw (JError ''handler'')]"

section \<open>Properties of \<open>promisify\<close>\<close>

lemma Resolve_settled: "settled s \<Longrightarrow> Resolve v s = s"
  by (simp add: Resolve_def)

lemma Reject_settled: "settled s \<Longrightarrow> Reject r s = s"
  by (simp add: Reject_def)

lemma on_timeout_settled: "settled s \<Longrightarrow> on_timeout t m s = s"
  by (simp add: on_timeout_def)

lemma invoke_callback_settled: "settled s \<Longrightarrow> invoke_callback c s = s"
  by (cases c) (simp_all add: Resolve_settled Reject_settled)

lemma invoke_callbacks_settled: "settled s \<Longrightarrow> invoke_callbacks cs s = s"
  unfolding invoke_callbacks_def
  by (induction cs) (simp_all add: invoke_callback_settled)

lemma settled_invoke_callback: "settled (invoke_callback c s)"
  by (cases c) (simp_all add: Resolve_def Reject_def native_resolve_def native_reject_def)

lemma settled_on_timeout: "settled (on_timeout t m s)"
  by (simp add: on_timeout_def defaultErrorHandler_def native_resolve_def)

lemma settled_fire: "settled (fire t m e s)"
  by (cases e) (simp_all add: settled_invoke_callback settled_on_timeout)

lemma fire_settled: "settled s \<Longrightarrow> fire t m e s = s"
  by (cases e) (simp_all add: invoke_callback_settled on_timeout_settled)

lemma fires_settled: "settled s \<Longrightarrow> foldl (\<lambda>s e. fire t m e s) s es = s"
  by (induction es) (simp_all add: fire_settled)

text \<open>
  Claim C10. Whatever the state of a promise made by \<open>promisify\<close>, the first of
  \<open>Resolve\<close>, \<open>Reject\<close> and the timer callback to run leaves the \<open>settled\<close> flag set, and
  any sequence of further calls of \<open>Resolve\<close> and \<open>Reject\<close> and firings of the timer leaves
  the whole state as it was after that first one: the outcome of the promise does not
  change and the error handler is not called again.
\<close>

theorem promisify_settles_once:
  "settled (fire t m e s) \<and>
   foldl (\<lambda>s e'. fire t m e' s) (fire t m e s) es = fire t m e s"
  using fires_settled [OF settled_fire] settled_fire by simp

theorem promisify_settles_once_witness:
  "foldl (\<lambda>s e'. fire 50 default_meta e' s) (fire 50 default_meta (Invoke (CallResolve (JStr ''v''))) new_promise)
     [Invoke (CallReject (JStr ''r'')), TimerFires, Invoke (CallResolve (JStr ''w''))]
   = \<lparr>settled = True, outcome = Fulfilled (JStr ''v''), reports = []\<rparr>"
  using promisify_settles_once [of 50 default_meta "Invoke (CallResolve (JStr ''v''))" new_promise
      "[Invoke (CallReject (JStr ''r'')), TimerFires, Invoke (CallResolve (JStr ''w''))]"]
  by (simp add: new_promise_def Resolve_def native_resolve_def)

text \<open>Once \<open>settled\<close> is set the promise is no longer free: it is decided or follows a thenable.\<close>

lemma locked_invoke:
  "(settled s \<longrightarrow> outcome s \<noteq> Pending) \<Longrightarrow>
   settled (invoke_callback c s) \<longrightarrow> outcome (invoke_callback c s) \<noteq> Pending"
  by (cases c) (auto simp: Resolve_def Reject_def native_resolve_def native_reject_def)

lemma locked_invokes:
  "(settled s \<longrightarrow> outcome s \<noteq> Pending) \<Longrightarrow>
   settled (invoke_callbacks cs s) \<longrightarrow> outcome (invoke_callbacks cs s) \<noteq> Pending"
  unfolding invoke_callbacks_def
proof (induction cs arbitrary: s)
  case Nil
  then show ?case by simp
next
  case (Cons c cs)
  show ?case using Cons.IH [OF locked_invoke [OF Cons.prems]] by simp
qed

lemma locked_executor: "settled (executor fn) \<longrightarrow> outcome (executor fn) \<noteq> Pending"
proof -
  have "settled (invoke_callbacks (sync_calls fn) new_promise) \<longrightarrow>
        outcome (invoke_callbacks (sync_calls fn) new_promise) \<noteq> Pending"
    by (rule locked_invokes) (simp add: new_promise_def)
  then show ?thesis
    by (cases "throws fn") (auto simp: executor_def Let_def native_reject_def)
qed

lemma locked_on_timeout:
  "(settled s \<longrightarrow> outcome s \<noteq> Pending) \<Longrightarrow> outcome (on_timeout t m s) \<noteq> Pending"
  by (auto simp: on_timeout_def defaultErrorHandler_def native_resolve_def)

lemma follow_not_pending: "follow now v \<noteq> Pending"
  by (induction now v rule: follow.induct) simp_all

lemma locked_advance: "outcome s \<noteq> Pending \<Longrightarrow> outcome (advance now s) \<noteq> Pending"
  by (cases "outcome s") (simp_all add: advance_def follow_not_pending)

lemma promisify_unfold_late:
  "timer_delay nesting (timeout_of ta) \<le> now \<Longrightarrow> promisify nesting fn ta ma (After now) =
     advance now
       (on_timeout (timeout_of ta) (meta_of ma)
          (invoke_callbacks
             (map snd (filter (\<lambda>(t, c). t < timer_delay nesting (timeout_of ta) \<and> t \<le> now)
                         (sort_key fst (later_calls fn))))
             (invoke_callbacks (micro_calls fn) (executor fn))))"
  by (simp add: promisify_def Let_def invoke_callbacks_settled settled_on_timeout)

lemma promisify_locked_by_timeout:
  "timer_delay nesting (timeout_of ta) \<le> now \<Longrightarrow>
   outcome (promisify nesting fn ta ma (After now)) \<noteq> Pending"
  by (simp only: promisify_unfold_late)
     (intro locked_advance locked_on_timeout locked_invokes locked_executor)














text \<open>
  Two more inputs on which the promise is not resolved with the empty string at the
  timeout. A function that passes a promise that never settles to \<open>Resolve\<close> sets
  \<open>settled\<close>, so the timer callback does nothing and the promise stays pending. A timeout
  of \<open>2 ^ 31\<close> milliseconds wraps to a negative delay, and the timer is due at once.
\<close>

lemma handed_over_promise_stays_pending:
  "promisify 0 handing_over_fn (Some 50) None (After now) =
     \<lparr>settled = True, outcome = Following (JThenable StaysPending), reports = []\<rparr>"
  by (simp add: promisify_def Let_def handing_over_fn_def executor_def invoke_callbacks_def
      new_promise_def Resolve_def native_resolve_def on_timeout_def advance_def)

lemma oversized_timeout_fires_at_once:
  "timer_delay 0 (2 ^ 31) = 0
   \<and> promisify 0 silent_fn (Some (2 ^ 31)) None (After 0) =
       \<lparr>settled = True, outcome = Fulfilled (JStr []),
        reports = [(timeout_error (2 ^ 31), default_meta)]\<rparr>"
  by (simp add: promisify_def Let_def silent_fn_def executor_def invoke_callbacks_def
      new_promise_def on_timeout_def native_resolve_def defaultErrorHandler_def
      timer_delay_def advance_def)

section \<open>Properties of the queue\<close>

subsection \<open>What one run of a body changes\<close>

lemma run_acts_eq:
  "run_acts as q =
     (acts_stop as,
      q\<lparr>priorityQueue := priorityQueue q @ pushed Priority as,
        mainQueue := mainQueue q @ pushed Main as,
        deferredQueue := deferredQueue q @ pushed Deferred as,
        trace := trace q @ acts_log as\<rparr>)"
proof (induction as q rule: run_acts.induct)
  case (2 l it rest q)
  then show ?case by (cases l) (simp_all add: logged_def)
qed (simp_all add: logged_def)

lemma invoke_eq:
  "invoke ph l it q =
     settle ph (name it)
       (acts_stop (body it),
        q\<lparr>priorityQueue := priorityQueue q @ pushed Priority (body it),
          mainQueue := mainQueue q @ pushed Main (body it),
          deferredQueue := deferredQueue q @ pushed Deferred (body it),
          trace := trace q @ Started l (name it) # acts_log (body it)\<rparr>)"
  by (simp add: invoke_def run_acts_eq logged_def)

lemma enqueued_append [simp]: "enqueued l (a @ b) = enqueued l a @ enqueued l b"
  by (simp add: enqueued_def)

lemma started_append [simp]: "started l (a @ b) = started l a @ started l b"
  by (simp add: started_def)

lemma started_simps [simp]:
  "started l [] = []"
  "started l (Started l' n # tr) = (if l' = l then n # started l tr else started l tr)"
  "started l (Enqueued l' n # tr) = started l tr"
  "started l (Finished n # tr) = started l tr"
  "started l (Did x # tr) = started l tr"
  "started l (Reported e c # tr) = started l tr"
  "started l (Printed e # tr) = started l tr"
  "started l (Aborted n e # tr) = started l tr"
  by (simp_all add: started_def)

lemma enqueued_simps [simp]:
  "enqueued l [] = []"
  "enqueued l (Enqueued l' n # tr) = (if l' = l then n # enqueued l tr else enqueued l tr)"
  "enqueued l (Started l' n # tr) = enqueued l tr"
  "enqueued l (Finished n # tr) = enqueued l tr"
  "enqueued l (Did x # tr) = enqueued l tr"
  "enqueued l (Reported e c # tr) = enqueued l tr"
  "enqueued l (Printed e # tr) = enqueued l tr"
  "enqueued l (Aborted n e # tr) = enqueued l tr"
  by (simp_all add: enqueued_def)

lemma in_flight_append: "in_flight (a @ b) = foldl watch (in_flight a) b"
  by (simp add: in_flight_def)

lemma watch_other [simp]:
  "watch s (Enqueued l n) = s" "watch s (Did x) = s" "watch s (Reported e c) = s"
  "watch s (Printed e) = s" "watch s (Aborted n e) = s"
  by (cases s; simp)+

lemma enqueued_acts_log: "enqueued l (acts_log as) = map name (pushed l as)"
  by (induction as rule: acts_log.induct) simp_all

lemma started_acts_log: "started l (acts_log as) = []"
  by (induction as rule: acts_log.induct) simp_all

lemma in_flight_acts_log: "foldl watch s (acts_log as) = s"
  by (induction as arbitrary: s rule: acts_log.induct) simp_all

lemma isRunning_push [simp]: "isRunning (push l it q) = isRunning q"
  by (cases l) (simp_all add: logged_def)

lemma defer_item_eq: "defer_item it q = runQueue (push Deferred it q)"
  by (simp add: defer_item_def Let_def runQueue_def)

text \<open>
  A call of one of the three functions while the runner is active only appends to the
  lane: this is what a \<open>Call\<close> inside a body does in \<open>run_acts\<close>.
\<close>

lemma api_call_while_running:
  "isRunning q \<Longrightarrow> step (ApiCall l it) q = push l it q"
  by (cases l) (simp_all add: addToQueue_def prioritize_def defer_item_eq runQueue_def del: push.simps)

lemma api_call_while_idle:
  "\<not> isRunning q \<Longrightarrow> step (ApiCall l it) q = main_loop ((push l it q)\<lparr>isRunning := True\<rparr>)"
  by (cases l) (simp_all add: addToQueue_def prioritize_def defer_item_eq runQueue_def del: push.simps)

subsection \<open>The bookkeeping is kept by every event\<close>

lemma consistent_settle:
  assumes "isRunning q" "fifo Priority q" "fifo Main q" "fifo Deferred q"
    "in_flight (trace q) = Busy n"
  shows "consistent (settle ph n (st, q))"
  using assms by (cases st) (simp_all add: consistent_def fifo_def logged_def in_flight_append)

lemma consistent_invoke_priority:
  assumes "ready q" "priorityQueue q = it # its"
  shows "consistent (invoke ph Priority it (q\<lparr>priorityQueue := its\<rparr>))"
  unfolding invoke_eq using assms
  by (intro consistent_settle)
     (simp_all add: ready_def fifo_def in_flight_append in_flight_acts_log
        enqueued_acts_log started_acts_log)

lemma consistent_invoke_main:
  assumes "ready q" "mainQueue q = it # its"
  shows "consistent (invoke ph Main it (q\<lparr>mainQueue := its\<rparr>))"
  unfolding invoke_eq using assms
  by (intro consistent_settle)
     (simp_all add: ready_def fifo_def in_flight_append in_flight_acts_log
        enqueued_acts_log started_acts_log)

lemma consistent_invoke_deferred:
  assumes "ready q" "deferredQueue q = it # its"
  shows "consistent (invoke ph Deferred it (q\<lparr>deferredQueue := its\<rparr>))"
  unfolding invoke_eq using assms
  by (intro consistent_settle)
     (simp_all add: ready_def fifo_def in_flight_append in_flight_acts_log
        enqueued_acts_log started_acts_log)

lemma consistent_deferred_loop: "ready q \<Longrightarrow> consistent (deferred_loop q)"
proof (cases "deferredQueue q")
  case Nil
  assume "ready q"
  with Nil show ?thesis by (simp add: deferred_loop_def consistent_def ready_def fifo_def)
next
  case (Cons it its)
  assume "ready q"
  with Cons show ?thesis using consistent_invoke_deferred [of q it its DeferredLoop]
    by (simp add: deferred_loop_def)
qed

lemma consistent_main_loop: "ready q \<Longrightarrow> consistent (main_loop q)"
proof -
  assume r: "ready q"
  show ?thesis
  proof (cases "priorityQueue q")
    case (Cons it its)
    with r show ?thesis using consistent_invoke_priority [of q it its MainLoop]
      by (simp add: main_loop_def)
  next
    case pn: Nil
    show ?thesis
    proof (cases "mainQueue q")
      case (Cons it its)
      with r pn show ?thesis using consistent_invoke_main [of q it its MainLoop]
        by (simp add: main_loop_def)
    next
      case Nil
      with r pn show ?thesis using consistent_deferred_loop [of q]
        by (cases "deferredQueue q") (simp_all add: main_loop_def consistent_def ready_def fifo_def)
    qed
  qed
qed

lemma consistent_push_running: "consistent q \<Longrightarrow> isRunning q \<Longrightarrow> consistent (push l it q)"
  by (cases l) (auto simp: consistent_def fifo_def logged_def in_flight_append)

lemma ready_push_idle:
  "consistent q \<Longrightarrow> \<not> isRunning q \<Longrightarrow> ready ((push l it q)\<lparr>isRunning := True\<rparr>)"
  by (cases l) (auto simp: consistent_def ready_def fifo_def logged_def in_flight_append)

lemma consistent_api:
  assumes "consistent q"
  shows "consistent (step (ApiCall l it) q)"
proof (cases "isRunning q")
  case True
  then show ?thesis
    using consistent_push_running [OF assms True, of l it] by (simp only: api_call_while_running)
next
  case False
  then show ?thesis
    using consistent_main_loop [OF ready_push_idle [OF assms False, of l it]]
    by (simp add: api_call_while_idle del: step.simps)
qed

lemma consistent_resume: "consistent q \<Longrightarrow> consistent (resume q)"
proof -
  assume w: "consistent q"
  show ?thesis
  proof (cases "runner q")
    case Idle
    with w show ?thesis by (simp add: resume_def)
  next
    case (Dead n e)
    with w show ?thesis by (simp add: resume_def)
  next
    case (Awaiting ph n c)
    show ?thesis
    proof (cases c)
      case (Some rest)
      have "consistent (settle ph n (acts_stop rest,
        q\<lparr>priorityQueue := priorityQueue q @ pushed Priority rest,
          mainQueue := mainQueue q @ pushed Main rest,
          deferredQueue := deferredQueue q @ pushed Deferred rest,
          trace := trace q @ acts_log rest\<rparr>))"
        using w Awaiting
        by (intro consistent_settle)
           (simp_all add: consistent_def fifo_def in_flight_append in_flight_acts_log
              enqueued_acts_log started_acts_log)
      with Awaiting Some show ?thesis by (simp add: resume_def run_acts_eq)
    next
      case None
      have "ready (logged (Finished n) q)"
        using w Awaiting by (simp add: consistent_def ready_def fifo_def logged_def in_flight_append)
      with Awaiting None show ?thesis
        by (cases ph) (simp_all add: resume_def consistent_main_loop consistent_deferred_loop)
    qed
  qed
qed

lemma consistent_step: "consistent q \<Longrightarrow> consistent (step e q)"
  by (cases e) (simp_all add: consistent_api consistent_resume del: step.simps(1-3))

lemma consistent_createQueue: "consistent createQueue"
  by (simp add: consistent_def createQueue_def fifo_def in_flight_def)

lemma run_Nil [simp]: "run [] q = q"
  by (simp add: run_def)

lemma run_Cons [simp]: "run (e # es) q = run es (step e q)"
  by (simp add: run_def)

lemma run_append: "run (es @ es') q = run es' (run es q)"
  by (simp add: run_def)

lemma consistent_run: "consistent q \<Longrightarrow> consistent (run es q)"
  by (induction es arbitrary: q) (simp_all add: consistent_step del: step.simps)

lemma reachable_consistent: "consistent (run es createQueue)"
  by (rule consistent_run [OF consistent_createQueue])

subsection \<open>The same bookkeeping in the refactor\<close>

text \<open>With an empty priority lane the first loop of the refactor is that of index.js.\<close>

lemma main_loop_refactor_eq: "priorityQueue q = [] \<Longrightarrow> main_loop_refactor q = main_loop q"
  by (simp add: main_loop_refactor_def main_loop_def)

lemma consistent_main_loop_refactor: "ready q \<Longrightarrow> consistent (main_loop_refactor q)"
proof -
  assume r: "ready q"
  show ?thesis
  proof (cases "mainQueue q")
    case (Cons it its)
    with r show ?thesis using consistent_invoke_main [of q it its MainLoop]
      by (simp add: main_loop_refactor_def)
  next
    case Nil
    with r show ?thesis using consistent_deferred_loop [of q]
      by (cases "deferredQueue q") (simp_all add: main_loop_refactor_def consistent_def ready_def fifo_def)
  qed
qed

lemma consistent_runQueue_refactor:
  assumes "consistent q"
  shows "consistent (runQueue_refactor (push l it q))"
proof (cases "isRunning q")
  case True
  then show ?thesis
    using consistent_push_running [OF assms True, of l it] by (simp add: runQueue_refactor_def)
next
  case False
  then show ?thesis
    using consistent_main_loop_refactor [OF ready_push_idle [OF assms False, of l it]]
    by (simp add: runQueue_refactor_def)
qed

lemma consistent_resume_refactor: "consistent q \<Longrightarrow> consistent (resume_refactor q)"
proof -
  assume w: "consistent q"
  show ?thesis
  proof (cases "runner q")
    case Idle
    with w show ?thesis by (simp add: resume_refactor_def)
  next
    case (Dead n e)
    with w show ?thesis by (simp add: resume_refactor_def)
  next
    case (Awaiting ph n c)
    show ?thesis
    proof (cases c)
      case (Some rest)
      with Awaiting have "resume_refactor q = resume q"
        by (simp add: resume_refactor_def resume_def)
      with w show ?thesis by (simp add: consistent_resume)
    next
      case None
      have "ready (logged (Finished n) q)"
        using w Awaiting by (simp add: consistent_def ready_def fifo_def logged_def in_flight_append)
      with Awaiting None show ?thesis
        by (cases ph) (simp_all add: resume_refactor_def consistent_main_loop_refactor consistent_deferred_loop)
    qed
  qed
qed

lemma consistent_step_refactor: "consistent q \<Longrightarrow> consistent (step_refactor e q)"
proof (cases e)
  case (CallAddToQueue it)
  assume "consistent q"
  with CallAddToQueue show ?thesis
    by (simp add: addToQueue_refactor_def consistent_runQueue_refactor del: push.simps)
next
  case (CallDefer it)
  assume c: "consistent q"
  have "defer_refactor it q = runQueue_refactor (push Deferred it q)"
    by (simp add: defer_refactor_def Let_def runQueue_refactor_def)
  with c CallDefer show ?thesis
    by (simp add: consistent_runQueue_refactor del: push.simps)
next
  case ResumeRunner
  assume "consistent q"
  with ResumeRunner show ?thesis by (simp add: consistent_resume_refactor)
qed

lemma consistent_run_refactor: "consistent q \<Longrightarrow> consistent (run_refactor es q)"
  unfolding run_refactor_def
  by (induction es arbitrary: q) (simp_all add: consistent_step_refactor del: step_refactor.simps)

subsection \<open>Which lane a step takes from\<close>

lemma trace_settle: "started l (trace (settle ph n (st, q))) = started l (trace q)"
  by (cases st) (simp_all add: logged_def)

lemma started_invoke:
  "started l' (trace (invoke ph l it q)) = started l' (trace q) @ (if l = l' then [name it] else [])"
  by (simp add: invoke_eq trace_settle started_acts_log)

lemma started_deferred_loop:
  "started l (trace (deferred_loop q)) =
     started l (trace q) @ (if l = Deferred \<and> deferredQueue q \<noteq> [] then [name (hd (deferredQueue q))] else [])"
  by (auto simp: deferred_loop_def started_invoke)

lemma started_main_loop:
  "started l (trace (main_loop q)) =
     started l (trace q) @
       (if priorityQueue q \<noteq> [] then (if l = Priority then [name (hd (priorityQueue q))] else [])
        else if mainQueue q \<noteq> [] then (if l = Main then [name (hd (mainQueue q))] else [])
        else if l = Deferred \<and> deferredQueue q \<noteq> [] then [name (hd (deferredQueue q))] else [])"
  by (auto simp: main_loop_def started_invoke started_deferred_loop)

lemma started_push [simp]: "started l' (trace (push l it q)) = started l' (trace q)"
  by (cases l) (simp_all add: logged_def)

lemma lanes_push [simp]:
  "priorityQueue (push l it q) = priorityQueue q @ (if l = Priority then [it] else [])"
  "mainQueue (push l it q) = mainQueue q @ (if l = Main then [it] else [])"
  "deferredQueue (push l it q) = deferredQueue q @ (if l = Deferred then [it] else [])"
  "runner (push l it q) = runner q"
  by (cases l; simp add: logged_def)+

lemma started_api:
  "started l' (trace (step (ApiCall l it) q)) =
     (if isRunning q then started l' (trace q)
      else started l' (trace (main_loop ((push l it q)\<lparr>isRunning := True\<rparr>))))"
  by (simp add: api_call_while_running api_call_while_idle del: step.simps push.simps)

lemma started_resume:
  "started l (trace (resume q)) =
     (case runner q of
        Awaiting ph n None \<Rightarrow>
          (case ph of MainLoop \<Rightarrow> started l (trace (main_loop (logged (Finished n) q)))
                    | DeferredLoop \<Rightarrow> started l (trace (deferred_loop (logged (Finished n) q))))
      | _ \<Rightarrow> started l (trace q))"
  by (auto simp: resume_def run_acts_eq trace_settle started_acts_log split: runner.splits option.splits phase.splits)


lemma deferred_needs_empty_lanes:
  "started Deferred (trace (step e q)) \<noteq> started Deferred (trace q) \<Longrightarrow>
     (priorityQueue q = [] \<and> mainQueue q = []) \<or> (\<exists>n c. runner q = Awaiting DeferredLoop n c)"
  by (cases e)
     (auto simp: started_api started_resume started_main_loop started_deferred_loop logged_def
        simp del: step.simps(1-3) push.simps split: runner.splits option.splits phase.splits if_splits)

lemma drain_resume:
  assumes "past_main_loop (runner q)"
  shows "past_main_loop (runner (resume q))
     \<and> started Main (trace (resume q)) = started Main (trace q)
     \<and> started Priority (trace (resume q)) = started Priority (trace q)
     \<and> take (length (mainQueue q)) (mainQueue (resume q)) = mainQueue q
     \<and> take (length (priorityQueue q)) (priorityQueue (resume q)) = priorityQueue q"
proof (cases "runner q")
  case Idle
  then show ?thesis by (simp add: resume_def)
next
  case (Dead n e)
  then show ?thesis by (simp add: resume_def)
next
  case (Awaiting ph n c)
  with assms have ph: "ph = DeferredLoop" by simp
  show ?thesis
  proof (cases c)
    case (Some rest)
    with Awaiting ph show ?thesis
      by (cases "acts_stop rest") (simp_all add: resume_def run_acts_eq started_acts_log logged_def)
  next
    case None
    with Awaiting ph show ?thesis
      by (cases "acts_stop (body (hd (deferredQueue q)))")
         (simp_all add: resume_def deferred_loop_def invoke_eq started_acts_log logged_def)
  qed
qed

lemma drain_api:
  assumes "past_main_loop (runner q)" "isRunning q"
  shows "past_main_loop (runner (step (ApiCall l it) q))
     \<and> started Main (trace (step (ApiCall l it) q)) = started Main (trace q)
     \<and> started Priority (trace (step (ApiCall l it) q)) = started Priority (trace q)
     \<and> take (length (mainQueue q)) (mainQueue (step (ApiCall l it) q)) = mainQueue q
     \<and> take (length (priorityQueue q)) (priorityQueue (step (ApiCall l it) q)) = priorityQueue q"
  using assms by (simp add: api_call_while_running del: step.simps push.simps)

lemma drain_step:
  assumes "past_main_loop (runner q)" "e = Resume \<or> isRunning q"
  shows "past_main_loop (runner (step e q))
     \<and> started Main (trace (step e q)) = started Main (trace q)
     \<and> started Priority (trace (step e q)) = started Priority (trace q)
     \<and> take (length (mainQueue q)) (mainQueue (step e q)) = mainQueue q
     \<and> take (length (priorityQueue q)) (priorityQueue (step e q)) = priorityQueue q"
proof (cases e)
  case (ApiCall l it)
  with assms show ?thesis using drain_api [of q l it] by simp
next
  case Resume
  with assms show ?thesis using drain_resume [of q] by simp
qed

lemma take_take_prefix:
  "take (length xs) ys = xs \<Longrightarrow> take (length ys) zs = ys \<Longrightarrow> take (length xs) zs = xs"
  by (metis append_eq_conv_conj append.assoc append_take_drop_id)

lemma drain_run:
  "past_main_loop (runner q) \<Longrightarrow> no_restart es q \<Longrightarrow>
     past_main_loop (runner (run es q))
     \<and> started Main (trace (run es q)) = started Main (trace q)
     \<and> started Priority (trace (run es q)) = started Priority (trace q)
     \<and> take (length (mainQueue q)) (mainQueue (run es q)) = mainQueue q
     \<and> take (length (priorityQueue q)) (priorityQueue (run es q)) = priorityQueue q"
proof (induction es arbitrary: q)
  case Nil
  then show ?case by simp
next
  case (Cons e es)
  from Cons.prems have ev: "e = Resume \<or> isRunning q" and nr: "no_restart es (step e q)"
    by simp_all
  note s = drain_step [OF Cons.prems(1) ev]
  from s have p: "past_main_loop (runner (step e q))" by simp
  note r = Cons.IH [OF p nr]
  from s r show ?case
    by (simp del: step.simps) (metis take_take_prefix)
qed

subsection \<open>An item that does not throw runs to its end\<close>

lemma resume_awaiting_some:
  "resume (q\<lparr>runner := Awaiting ph n (Some rest)\<rparr>) = settle ph n (run_acts rest (q\<lparr>runner := Awaiting ph n (Some rest)\<rparr>))"
  by (simp add: resume_def)

lemma run_acts_runner:
  "settle ph n (run_acts as (q\<lparr>runner := r\<rparr>)) = settle ph n (run_acts as q)"
  by (cases "acts_stop as") (simp_all add: run_acts_eq logged_def)

lemma body_runs_to_its_end:
  "first_throw as = None \<Longrightarrow>
   run (replicate (awaits as) Resume) (settle ph n (run_acts as q))
     = (finish_acts as q)\<lparr>runner := Awaiting ph n None\<rparr>"
proof (induction as arbitrary: q)
  case Nil
  then show ?case by simp
next
  case (Cons a as)
  show ?case
  proof (cases a)
    case (Call l it)
    with Cons show ?thesis by simp
  next
    case Await
    with Cons.prems have ft: "first_throw as = None" by simp
    have "run (replicate (awaits (a # as)) Resume) (settle ph n (run_acts (a # as) q))
        = run (replicate (awaits as) Resume) (resume (q\<lparr>runner := Awaiting ph n (Some as)\<rparr>))"
      using Await by simp
    also have "\<dots> = run (replicate (awaits as) Resume) (settle ph n (run_acts as q))"
      by (simp only: resume_awaiting_some run_acts_runner)
    also have "\<dots> = (finish_acts as q)\<lparr>runner := Awaiting ph n None\<rparr>"
      by (rule Cons.IH [OF ft])
    finally show ?thesis using Await by simp
  next
    case (Throw e)
    with Cons.prems show ?thesis by simp
  next
    case (Effect x)
    with Cons show ?thesis by simp
  next
    case (Report e c)
    with Cons show ?thesis by simp
  next
    case (ConsoleError e)
    with Cons show ?thesis by simp
  qed
qed

lemma resume_awaiting_none:
  "resume (q\<lparr>runner := Awaiting ph n None\<rparr>)
     = loop_of ph (logged (Finished n) (q\<lparr>runner := Awaiting ph n None\<rparr>))"
  by (cases ph) (simp_all add: resume_def)

lemma item_finishes:
  assumes "first_throw (body it) = None"
  shows "run (replicate (Suc (awaits (body it))) Resume) (invoke ph l it q)
     = loop_of ph (logged (Finished (name it))
         ((finish_acts (body it) (logged (Started l (name it)) q))\<lparr>runner := Awaiting ph (name it) None\<rparr>))"
proof -
  have "run (replicate (Suc (awaits (body it))) Resume) (invoke ph l it q)
      = resume (run (replicate (awaits (body it)) Resume) (invoke ph l it q))"
  proof -
    have "replicate (Suc (awaits (body it))) Resume = replicate (awaits (body it)) Resume @ [Resume]"
      by (simp add: replicate_append_same)
    then show ?thesis by (simp only: run_append) simp
  qed
  also have "run (replicate (awaits (body it)) Resume) (invoke ph l it q)
      = (finish_acts (body it) (logged (Started l (name it)) q))\<lparr>runner := Awaiting ph (name it) None\<rparr>"
    unfolding invoke_def by (rule body_runs_to_its_end [OF assms])
  finally show ?thesis by (simp only: resume_awaiting_none)
qed


lemma dead_step:
  assumes "runner q = Dead n e" "isRunning q"
  shows "runner (step ev q) = Dead n e \<and> isRunning (step ev q)
         \<and> started l (trace (step ev q)) = started l (trace q)"
proof (cases ev)
  case (ApiCall l' it)
  with assms show ?thesis by (simp add: api_call_while_running del: step.simps push.simps)
next
  case Resume
  with assms show ?thesis by (simp add: resume_def)
qed

lemma dead_queue_stays_dead:
  "runner q = Dead n e \<Longrightarrow> isRunning q \<Longrightarrow>
   runner (run es q) = Dead n e \<and> started l (trace (run es q)) = started l (trace q)"
proof (induction es arbitrary: q)
  case Nil
  then show ?case by simp
next
  case (Cons ev es)
  from dead_step [OF Cons.prems, of ev l] Cons.IH [of "step ev q"]
  show ?case by (simp del: step.simps)
qed

subsection \<open>A chain of items with mixed latencies\<close>

lemma first_throw_latency: "first_throw (replicate k Await @ [Effect n]) = None"
  by (induction k) simp_all

lemma awaits_latency: "awaits (replicate k Await @ [Effect n]) = k"
  by (induction k) simp_all

lemma finish_latency: "finish_acts (replicate k Await @ [Effect n]) q = logged (Did n) q"
  by (induction k) simp_all

lemma latency_item_finishes:
  "run (replicate (Suc (snd s)) Resume) (invoke MainLoop Main (latency_item s) q)
     = main_loop (q\<lparr>runner := Awaiting MainLoop (fst s) None,
                    trace := trace q @ [Started Main (fst s), Did (fst s), Finished (fst s)]\<rparr>)"
  using item_finishes [of "latency_item s" MainLoop Main q]
  by (simp add: latency_item_def first_throw_latency awaits_latency finish_latency logged_def)

lemma run_resumes_add:
  "run (replicate (a + b) Resume) q = run (replicate b Resume) (run (replicate a Resume) q)"
  by (simp add: replicate_add run_append)

lemma chain_drains:
  assumes "isRunning q" "priorityQueue q = []" "deferredQueue q = []"
    "mainQueue q = map latency_item specs"
  shows "run (replicate (sum_list (map (\<lambda>s. Suc (snd s)) specs)) Resume) (main_loop q)
     = q\<lparr>mainQueue := [], isRunning := False, runner := Idle,
         trace := trace q @ in_order specs\<rparr>"
  using assms
proof (induction specs arbitrary: q)
  case Nil
  then show ?case by (simp add: main_loop_def in_order_def)
next
  case (Cons s specs)
  let ?q1 = "q\<lparr>mainQueue := map latency_item specs\<rparr>"
  let ?q2 = "?q1\<lparr>runner := Awaiting MainLoop (fst s) None,
                  trace := trace ?q1 @ [Started Main (fst s), Did (fst s), Finished (fst s)]\<rparr>"
  have m: "main_loop q = invoke MainLoop Main (latency_item s) ?q1"
    using Cons.prems by (simp add: main_loop_def)
  have "run (replicate (sum_list (map (\<lambda>s. Suc (snd s)) (s # specs))) Resume) (main_loop q)
      = run (replicate (sum_list (map (\<lambda>s. Suc (snd s)) specs)) Resume)
          (run (replicate (Suc (snd s)) Resume) (main_loop q))"
    by (simp only: list.map sum_list.Cons run_resumes_add)
  also have "run (replicate (Suc (snd s)) Resume) (main_loop q) = main_loop ?q2"
    by (simp only: m latency_item_finishes)
  also have "run (replicate (sum_list (map (\<lambda>s. Suc (snd s)) specs)) Resume) (main_loop ?q2)
      = ?q2\<lparr>mainQueue := [], isRunning := False, runner := Idle,
            trace := trace ?q2 @ in_order specs\<rparr>"
    using Cons.prems by (intro Cons.IH) simp_all
  finally show ?case by (simp add: in_order_def)
qed

lemma suspended_runs_to_end:
  assumes "first_throw as = None" "runner q = Awaiting ph n (Some as)"
  shows "run (replicate (Suc (awaits as)) Resume) q
     = (finish_acts as q)\<lparr>runner := Awaiting ph n None\<rparr>"
proof -
  have "resume q = settle ph n (run_acts as q)"
    using assms(2) by (simp add: resume_def)
  then show ?thesis
    using body_runs_to_its_end [OF assms(1), of ph n q] by simp
qed

lemma calls_while_running:
  "isRunning q \<Longrightarrow>
   run (map (\<lambda>s. ApiCall Main (f s)) specs) q
     = q\<lparr>mainQueue := mainQueue q @ map f specs,
         trace := trace q @ map (\<lambda>s. Enqueued Main (name (f s))) specs\<rparr>"
proof (induction specs arbitrary: q)
  case Nil
  then show ?case by simp
next
  case (Cons s specs)
  have "step (ApiCall Main (f s)) q = push Main (f s) q"
    using Cons.prems by (rule api_call_while_running)
  moreover have "isRunning (push Main (f s) q)" using Cons.prems by (simp only: isRunning_push)
  ultimately show ?case using Cons.IH [of "push Main (f s) q"]
    by (simp add: logged_def del: step.simps)
qed

lemma executed_append [simp]: "executed (a @ b) = executed a @ executed b"
  by (simp add: executed_def)

lemma executed_enqueued [simp]: "executed (map (\<lambda>s. Enqueued l (g s)) specs) = []"
  by (induction specs) (simp_all add: executed_def)

lemma executed_in_order [simp]: "executed (in_order specs) = in_order specs"
  by (induction specs) (simp_all add: executed_def in_order_def)

lemma name_latency_item [simp]: "name (latency_item s) = fst s"
  by (simp add: latency_item_def)

lemma first_call:
  "step (ApiCall Main (latency_item s)) createQueue
     = invoke MainLoop Main (latency_item s)
         (createQueue\<lparr>isRunning := True, trace := [Enqueued Main (fst s)]\<rparr>)"
  by (simp add: addToQueue_def runQueue_def main_loop_def createQueue_def logged_def)

lemma chain_runs_in_order:
  "executed (trace (run (chain_events specs) createQueue)) = in_order specs
   \<and> runner (run (chain_events specs) createQueue) = Idle
   \<and> mainQueue (run (chain_events specs) createQueue) = []
   \<and> \<not> isRunning (run (chain_events specs) createQueue)"
proof (cases specs)
  case Nil
  then show ?thesis
    by (simp add: chain_events_def in_order_def createQueue_def executed_def)
next
  case (Cons s rest)
  let ?q0 = "createQueue\<lparr>isRunning := True, trace := [Enqueued Main (fst s)]\<rparr>"
  let ?n = "sum_list (map (\<lambda>s. Suc (snd s)) rest)"
  let ?enq = "map (\<lambda>s. Enqueued Main (name (latency_item s))) rest"
  have split: "run (chain_events specs) createQueue
      = run (replicate ?n Resume)
          (resume (run (replicate (snd s) Resume)
             (run (map (\<lambda>s. ApiCall Main (latency_item s)) rest)
                (invoke MainLoop Main (latency_item s) ?q0))))"
  proof -
    have "replicate (sum_list (map (\<lambda>s. Suc (snd s)) specs)) Resume
        = replicate (snd s) Resume @ [Resume] @ replicate ?n Resume"
      using Cons by (simp add: replicate_add replicate_append_same)
    then show ?thesis
      using Cons by (simp add: chain_events_def run_append first_call del: step.simps(1-3))
  qed
  show ?thesis
  proof (cases "snd s")
    case 0
    let ?q1 = "?q0\<lparr>runner := Awaiting MainLoop (fst s) None,
                    trace := [Enqueued Main (fst s), Started Main (fst s), Did (fst s)]\<rparr>"
    have i: "invoke MainLoop Main (latency_item s) ?q0 = ?q1"
      using 0 by (simp add: invoke_eq latency_item_def createQueue_def)
    have r: "isRunning ?q1" by simp
    let ?q2 = "?q1\<lparr>mainQueue := map latency_item rest, trace := trace ?q1 @ ?enq\<rparr>"
    have p: "run (map (\<lambda>s. ApiCall Main (latency_item s)) rest) ?q1 = ?q2"
      using calls_while_running [OF r, of latency_item rest] by (simp add: createQueue_def)
    let ?q3 = "?q2\<lparr>trace := trace ?q2 @ [Finished (fst s)]\<rparr>"
    have f: "resume ?q2 = main_loop ?q3"
      by (simp add: resume_def logged_def)
    have d: "run (replicate ?n Resume) (main_loop ?q3)
        = ?q3\<lparr>mainQueue := [], isRunning := False, runner := Idle,
              trace := trace ?q3 @ in_order rest\<rparr>"
      by (rule chain_drains) (simp_all add: createQueue_def)
    have "run (chain_events specs) createQueue
        = ?q3\<lparr>mainQueue := [], isRunning := False, runner := Idle,
              trace := trace ?q3 @ in_order rest\<rparr>"
      using 0 by (simp only: split i p f d replicate_0 run_Nil)
    then show ?thesis using Cons
      by (simp add: in_order_def executed_def)
  next
    case (Suc j)
    let ?as = "replicate j Await @ [Effect (fst s)]"
    let ?q1 = "?q0\<lparr>runner := Awaiting MainLoop (fst s) (Some ?as),
                    trace := [Enqueued Main (fst s), Started Main (fst s)]\<rparr>"
    have i: "invoke MainLoop Main (latency_item s) ?q0 = ?q1"
      using Suc by (simp add: invoke_eq latency_item_def createQueue_def)
    have r: "isRunning ?q1" by simp
    let ?q2 = "?q1\<lparr>mainQueue := map latency_item rest, trace := trace ?q1 @ ?enq\<rparr>"
    have p: "run (map (\<lambda>s. ApiCall Main (latency_item s)) rest) ?q1 = ?q2"
      using calls_while_running [OF r, of latency_item rest] by (simp add: createQueue_def)
    let ?q2' = "?q2\<lparr>runner := Awaiting MainLoop (fst s) None,
                     trace := trace ?q2 @ [Did (fst s)]\<rparr>"
    have e: "run (replicate (snd s) Resume) ?q2 = ?q2'"
      using suspended_runs_to_end [of ?as ?q2 MainLoop "fst s"] Suc
      by (simp add: first_throw_latency awaits_latency finish_latency logged_def)
    let ?q3 = "?q2'\<lparr>trace := trace ?q2' @ [Finished (fst s)]\<rparr>"
    have f: "resume ?q2' = main_loop ?q3"
      by (simp add: resume_def logged_def)
    have d: "run (replicate ?n Resume) (main_loop ?q3)
        = ?q3\<lparr>mainQueue := [], isRunning := False, runner := Idle,
              trace := trace ?q3 @ in_order rest\<rparr>"
      by (rule chain_drains) (simp_all add: createQueue_def)
    have "run (chain_events specs) createQueue
        = ?q3\<lparr>mainQueue := [], isRunning := False, runner := Idle,
              trace := trace ?q3 @ in_order rest\<rparr>"
      by (simp only: split i p e f d)
    then show ?thesis using Cons
      by (simp add: in_order_def executed_def)
  qed
qed

subsection \<open>The refactor's queue on items that do not call the queue\<close>

text \<open>
  While the priority lane is empty a step of the refactor's queue is the corresponding
  step of the queue of index.js, and the priority lane stays empty when no item calls the
  queue. A chain of items with latencies therefore runs on the refactor's queue as it
  does on the queue of index.js.
\<close>

lemma quiet_Cons: "quiet (a # as) = (\<not> is_call a \<and> quiet as)"
  by (simp add: quiet_def)

lemma quiet_pushed: "quiet as \<Longrightarrow> pushed l as = []"
  by (induction l as rule: pushed.induct) (simp_all add: quiet_Cons)

lemma quiet_suspended: "quiet as \<Longrightarrow> acts_stop as = Suspended rest \<Longrightarrow> quiet rest"
  by (induction as rule: acts_stop.induct) (simp_all add: quiet_Cons)

lemma calm_settle:
  assumes "priorityQueue q = []" "list_all (\<lambda>it. quiet (body it)) (mainQueue q)"
    "list_all (\<lambda>it. quiet (body it)) (deferredQueue q)" "quiet as"
  shows "calm (settle ph n (run_acts as q))"
proof (cases "acts_stop as")
  case (Suspended rest)
  with assms quiet_suspended [OF assms(4) Suspended] show ?thesis
    by (simp add: run_acts_eq calm_def quiet_pushed)
next
  case Returned
  with assms show ?thesis by (simp add: run_acts_eq calm_def quiet_pushed)
next
  case (Threw e)
  with assms show ?thesis by (simp add: run_acts_eq calm_def quiet_pushed logged_def)
qed

lemma calm_invoke:
  assumes "priorityQueue q = []" "list_all (\<lambda>it. quiet (body it)) (mainQueue q)"
    "list_all (\<lambda>it. quiet (body it)) (deferredQueue q)" "quiet (body it)"
  shows "calm (invoke ph l it q)"
  unfolding invoke_def using assms by (intro calm_settle) (simp_all add: logged_def)

lemma calm_deferred_loop:
  assumes "priorityQueue q = []" "list_all (\<lambda>it. quiet (body it)) (mainQueue q)"
    "list_all (\<lambda>it. quiet (body it)) (deferredQueue q)"
  shows "calm (deferred_loop q)"
proof (cases "deferredQueue q")
  case Nil
  with assms show ?thesis by (simp add: deferred_loop_def calm_def)
next
  case (Cons it its)
  with assms have "calm (invoke DeferredLoop Deferred it (q\<lparr>deferredQueue := its\<rparr>))"
    by (intro calm_invoke) simp_all
  with Cons show ?thesis by (simp add: deferred_loop_def)
qed

lemma calm_main_loop:
  assumes "priorityQueue q = []" "list_all (\<lambda>it. quiet (body it)) (mainQueue q)"
    "list_all (\<lambda>it. quiet (body it)) (deferredQueue q)"
  shows "calm (main_loop q)"
proof (cases "mainQueue q")
  case Nil
  with assms calm_deferred_loop [OF assms] show ?thesis
    by (cases "deferredQueue q") (simp_all add: main_loop_def calm_def)
next
  case (Cons it its)
  with assms have "calm (invoke MainLoop Main it (q\<lparr>mainQueue := its\<rparr>))"
    by (intro calm_invoke) simp_all
  with Cons assms(1) show ?thesis by (simp add: main_loop_def)
qed

lemma calm_resume: "calm q \<Longrightarrow> calm (resume q)"
proof -
  assume c: "calm q"
  show ?thesis
  proof (cases "runner q")
    case Idle
    with c show ?thesis by (simp add: resume_def)
  next
    case (Dead n e)
    with c show ?thesis by (simp add: resume_def)
  next
    case (Awaiting ph n r)
    show ?thesis
    proof (cases r)
      case (Some rest)
      with c Awaiting have "calm (settle ph n (run_acts rest q))"
        by (intro calm_settle) (simp_all add: calm_def)
      with Awaiting Some show ?thesis by (simp add: resume_def)
    next
      case None
      from c have "calm (main_loop (logged (Finished n) q))"
        by (intro calm_main_loop) (simp_all add: calm_def logged_def)
      moreover from c have "calm (deferred_loop (logged (Finished n) q))"
        by (intro calm_deferred_loop) (simp_all add: calm_def logged_def)
      ultimately show ?thesis using Awaiting None by (cases ph) (simp_all add: resume_def)
    qed
  qed
qed

lemma calm_api:
  assumes "calm q" "quiet (body it)" "l \<noteq> Priority"
  shows "calm (step (ApiCall l it) q)"
proof (cases "isRunning q")
  case True
  have "calm (push l it q)"
    using assms by (cases l) (simp_all add: calm_def logged_def)
  with True show ?thesis by (simp only: api_call_while_running)
next
  case False
  have "calm (main_loop ((push l it q)\<lparr>isRunning := True\<rparr>))"
    using assms by (intro calm_main_loop; cases l) (simp_all add: calm_def logged_def)
  with False show ?thesis by (simp add: api_call_while_idle del: step.simps push.simps)
qed

lemma step_refactor_eq:
  assumes "priorityQueue q = []"
  shows "step_refactor e q = step (of_refactor e) q"
proof (cases e)
  case (CallAddToQueue it)
  with assms show ?thesis
    by (simp add: addToQueue_refactor_def addToQueue_def runQueue_refactor_def runQueue_def
        main_loop_refactor_eq logged_def)
next
  case (CallDefer it)
  with assms show ?thesis
    by (simp add: defer_refactor_def defer_item_def runQueue_refactor_def runQueue_def
        main_loop_refactor_eq logged_def Let_def)
next
  case ResumeRunner
  with assms show ?thesis
    by (simp add: resume_refactor_def resume_def main_loop_refactor_eq logged_def
        split: runner.splits option.splits phase.splits)
qed

lemma calm_step:
  assumes "calm q" "quiet_event e"
  shows "calm (step (of_refactor e) q)"
proof (cases e)
  case (CallAddToQueue it)
  with assms calm_api [of q it Main] show ?thesis by (simp del: step.simps)
next
  case (CallDefer it)
  with assms calm_api [of q it Deferred] show ?thesis by (simp del: step.simps)
next
  case ResumeRunner
  with assms calm_resume [of q] show ?thesis by simp
qed

lemma run_refactor_eq:
  "calm q \<Longrightarrow> list_all quiet_event es \<Longrightarrow> run_refactor es q = run (map of_refactor es) q"
proof (induction es arbitrary: q)
  case Nil
  then show ?case by (simp add: run_refactor_def)
next
  case (Cons e es)
  from Cons.prems have c: "calm q" and e: "quiet_event e" and es: "list_all quiet_event es"
    by simp_all
  have s: "step_refactor e q = step (of_refactor e) q"
    using c by (intro step_refactor_eq) (simp add: calm_def)
  have "run_refactor (e # es) q = run_refactor es (step_refactor e q)"
    by (simp add: run_refactor_def)
  also have "\<dots> = run (map of_refactor es) (step (of_refactor e) q)"
    unfolding s by (rule Cons.IH [OF calm_step [OF c e] es])
  finally show ?case by (simp del: step.simps)
qed

lemma quiet_latency_item: "quiet (body (latency_item s))"
  by (simp add: latency_item_def quiet_def filter_empty_conv)

lemma chain_events_of_refactor: "map of_refactor (chain_events_refactor specs) = chain_events specs"
  by (simp add: chain_events_refactor_def chain_events_def comp_def)

lemma quiet_chain_events: "list_all quiet_event (chain_events_refactor specs)"
  by (auto simp: chain_events_refactor_def list_all_iff quiet_latency_item)

lemma calm_createQueue: "calm createQueue"
  by (simp add: calm_def createQueue_def)

lemma chain_refactor_eq:
  "run_refactor (chain_events_refactor specs) createQueue = run (chain_events specs) createQueue"
  using run_refactor_eq [OF calm_createQueue quiet_chain_events, of specs]
  by (simp only: chain_events_of_refactor)

subsection \<open>The claims about the order of execution\<close>

lemmas queue_eval =
  createQueue_def addToQueue_def prioritize_def defer_item_def runQueue_def main_loop_def
  deferred_loop_def invoke_def resume_def logged_def Let_def

lemmas example_items = text_item_def f1_item_def f2_item_def defer1_item_def defer2_item_def

lemma draining_queue_eq:
  "draining_queue =
     \<lparr>priorityQueue = [], mainQueue = [text_item], deferredQueue = [f2_item], isRunning = True,
      runner = Awaiting DeferredLoop ''f1'' None,
      trace = [Enqueued Main ''defer1'', Started Main ''defer1'', Enqueued Deferred ''f1'',
               Enqueued Main ''defer2'', Finished ''defer1'', Started Main ''defer2'',
               Enqueued Deferred ''f2'', Finished ''defer2'', Started Deferred ''f1'',
               Enqueued Main ''text'']\<rparr>"
  by (simp add: draining_queue_def queue_eval example_items)

text \<open>
  Claim C1. Whatever is called on a fresh queue and whenever the event loop resumes it,
  the work items taken from the main lane so far, followed by those still waiting in it,
  are the items pushed on it, in the order of the pushes: the runner takes them first in,
  first out. No item is started while another is in flight, and the item that finishes is
  the one in flight: the runner waits for the item it has called, whether that item
  returns at once or suspends any number of times, before it takes the next. Both hold for
  the queue of index.js and for the queue of the refactor. And a chain of main-lane items
  of any latencies, called in one go on a fresh queue, runs to its end, on the queue of
  index.js and on the queue of the refactor: each item starts, performs its effect and
  finishes before the next one starts, in the order of the calls, and the queue is idle
  and empty afterwards.
\<close>

theorem main_lane_fifo:
  "started Main (trace (run es createQueue)) @ map name (mainQueue (run es createQueue))
     = enqueued Main (trace (run es createQueue))
   \<and> in_flight (trace (run es createQueue)) \<noteq> Overlap
   \<and> started Main (trace (run_refactor es' createQueue))
         @ map name (mainQueue (run_refactor es' createQueue))
     = enqueued Main (trace (run_refactor es' createQueue))
   \<and> in_flight (trace (run_refactor es' createQueue)) \<noteq> Overlap
   \<and> executed (trace (run (chain_events specs) createQueue)) = in_order specs
   \<and> runner (run (chain_events specs) createQueue) = Idle
   \<and> mainQueue (run (chain_events specs) createQueue) = []
   \<and> executed (trace (run_refactor (chain_events_refactor specs) createQueue)) = in_order specs
   \<and> runner (run_refactor (chain_events_refactor specs) createQueue) = Idle
   \<and> mainQueue (run_refactor (chain_events_refactor specs) createQueue) = []"
proof -
  have no: "flight_of r \<noteq> Overlap" for r by (cases r) simp_all
  have c: "consistent (run es createQueue)" by (rule reachable_consistent)
  then have "in_flight (trace (run es createQueue)) = flight_of (runner (run es createQueue))"
    by (simp add: consistent_def)
  with no have a: "in_flight (trace (run es createQueue)) \<noteq> Overlap" by simp
  have c': "consistent (run_refactor es' createQueue)"
    by (rule consistent_run_refactor [OF consistent_createQueue])
  then have "in_flight (trace (run_refactor es' createQueue))
      = flight_of (runner (run_refactor es' createQueue))"
    by (simp add: consistent_def)
  with no have a': "in_flight (trace (run_refactor es' createQueue)) \<noteq> Overlap" by simp
  from c c' a a' chain_runs_in_order [of specs] show ?thesis
    by (simp add: consistent_def fifo_def chain_refactor_eq)
qed

theorem main_lane_fifo_witness:
  "executed (trace (run (chain_events [(''a'', 0), (''b'', 2), (''c'', 0)]) createQueue))
     = [Started Main ''a'', Did ''a'', Finished ''a'',
        Started Main ''b'', Did ''b'', Finished ''b'',
        Started Main ''c'', Did ''c'', Finished ''c'']
   \<and> runner (run (chain_events [(''a'', 0), (''b'', 2), (''c'', 0)]) createQueue) = Idle
   \<and> executed (trace (run_refactor (chain_events_refactor [(''a'', 0), (''b'', 2), (''c'', 0)])
                         createQueue))
     = [Started Main ''a'', Did ''a'', Finished ''a'',
        Started Main ''b'', Did ''b'', Finished ''b'',
        Started Main ''c'', Did ''c'', Finished ''c'']
   \<and> runner (run_refactor (chain_events_refactor [(''a'', 0), (''b'', 2), (''c'', 0)]) createQueue)
     = Idle"
proof -
  note fifo = main_lane_fifo [of "[]" "[]" "[(''a'', 0), (''b'', 2), (''c'', 0)]"]
  from fifo [THEN conjunct2, THEN conjunct2, THEN conjunct2, THEN conjunct2] show ?thesis
    by (simp add: in_order_def)
qed



text \<open>
  Claim C3, as the code has it. On a queue reached from a fresh one, a step starts a
  deferred item only if the priority and main lanes were both empty before the step or a
  deferred item was in flight (the drain had begun); the deferred items started so far,
  followed by those waiting, are the deferred items pushed, in the order of the pushes;
  and whenever the queue is idle its deferred lane is empty and every deferred item
  pushed, also one pushed during the drain, has been started and has finished.
\<close>

theorem deferred_after_both_lanes:
  assumes "q = run es createQueue"
  shows "(started Deferred (trace (step e q)) \<noteq> started Deferred (trace q) \<longrightarrow>
          (priorityQueue q = [] \<and> mainQueue q = []) \<or> (\<exists>n c. runner q = Awaiting DeferredLoop n c))
   \<and> started Deferred (trace q) @ map name (deferredQueue q) = enqueued Deferred (trace q)
   \<and> (runner q = Idle \<longrightarrow>
        deferredQueue q = [] \<and> started Deferred (trace q) = enqueued Deferred (trace q)
        \<and> in_flight (trace q) = Free)"
proof -
  have c: "consistent q" using assms by (simp add: reachable_consistent)
  show ?thesis using deferred_needs_empty_lanes [of e q] c
    by (auto simp: consistent_def fifo_def)
qed

theorem deferred_after_both_lanes_witness:
  "started Deferred (trace (step Resume (run [ApiCall Main defer1_item] createQueue))) = [''f1'']
   \<and> started Deferred (trace (run [ApiCall Main defer1_item] createQueue)) = []
   \<and> priorityQueue (run [ApiCall Main defer1_item] createQueue) = []
   \<and> mainQueue (run [ApiCall Main defer1_item] createQueue) = []"
proof -
  have d: "started Deferred (trace (step Resume (run [ApiCall Main defer1_item] createQueue)))
       \<noteq> started Deferred (trace (run [ApiCall Main defer1_item] createQueue))"
    by (simp add: queue_eval example_items)
  have n: "\<not> (\<exists>n c. runner (run [ApiCall Main defer1_item] createQueue) = Awaiting DeferredLoop n c)"
    by (simp add: queue_eval example_items)
  from deferred_after_both_lanes [of "run [ApiCall Main defer1_item] createQueue"
      "[ApiCall Main defer1_item]" Resume] d n
  have "priorityQueue (run [ApiCall Main defer1_item] createQueue) = []
        \<and> mainQueue (run [ApiCall Main defer1_item] createQueue) = []"
    by blast
  then show ?thesis
    by (simp add: queue_eval example_items)
qed

text \<open>
  Claim C3 as the spec states it fails. In \<open>draining_queue\<close> the deferred function \<open>f1\<close>
  is in flight and has put \<open>text\<close> on the main lane; when the runner is resumed it starts
  the next deferred function \<open>f2\<close> although the main lane is not empty.
\<close>

theorem deferred_runs_beside_main_counterexample:
  "mainQueue draining_queue = [text_item]
   \<and> trace (resume draining_queue) = trace draining_queue @ [Finished ''f1'', Started Deferred ''f2'']
   \<and> mainQueue (resume draining_queue) = [text_item]"
  by (simp add: draining_queue_eq queue_eval example_items)

text \<open>
  Claim C9. Let a deferred item be in flight, and let the events that follow be
  resumptions by the event loop and calls made while the runner is active. Then no item
  of the main or the priority lane is started, and whatever was or is put on these lanes
  stays there. A call of \<open>runQueue\<close> while \<open>isRunning\<close> is set returns at once, so such a
  call only appends to its lane; a call made when the queue is idle starts the loop again.
\<close>

theorem items_enqueued_during_drain_stay_pending:
  assumes "runner q = Awaiting DeferredLoop n c" and "no_restart es q"
  shows "started Main (trace (run es q)) = started Main (trace q)
     \<and> started Priority (trace (run es q)) = started Priority (trace q)
     \<and> take (length (mainQueue q)) (mainQueue (run es q)) = mainQueue q
     \<and> take (length (priorityQueue q)) (priorityQueue (run es q)) = priorityQueue q
     \<and> (isRunning q' \<longrightarrow> runQueue q' = q' \<and> step (ApiCall l it) q' = push l it q')
     \<and> (\<not> isRunning q' \<longrightarrow> step (ApiCall l it) q' = main_loop ((push l it q')\<lparr>isRunning := True\<rparr>))"
  using drain_run [OF _ assms(2)] assms(1) api_call_while_running [of q' l it]
    api_call_while_idle [of q' l it]
  by (simp add: runQueue_def del: step.simps push.simps)

theorem items_enqueued_during_drain_stay_pending_witness:
  "runner draining_queue = Awaiting DeferredLoop ''f1'' None
   \<and> mainQueue (run [Resume, Resume] draining_queue) = [text_item]
   \<and> runner (run [Resume, Resume] draining_queue) = Idle
   \<and> started Main (trace (run [Resume, Resume] draining_queue)) = [''defer1'', ''defer2'']
   \<and> started Main (trace (run [Resume, Resume, ApiCall Main later_item] draining_queue))
       = [''defer1'', ''defer2'', ''text'']"
proof -
  have r: "runner draining_queue = Awaiting DeferredLoop ''f1'' None"
    by (simp add: draining_queue_eq)
  have nr: "no_restart [Resume, Resume] draining_queue"
    by (simp add: draining_queue_eq queue_eval example_items)
  have s: "started Main (trace draining_queue) = [''defer1'', ''defer2'']"
    by (simp add: draining_queue_eq)
  from items_enqueued_during_drain_stay_pending [OF r nr] s
  have "started Main (trace (run [Resume, Resume] draining_queue)) = [''defer1'', ''defer2'']"
    by simp
  then show ?thesis
    by (simp add: draining_queue_eq queue_eval example_items later_item_def)
qed

section \<open>Properties of the chain facade\<close>

lemma first_throw_try_catch:
  "(\<And>e. first_throw (h e) = None) \<Longrightarrow> first_throw (try_catch h as) = None"
  by (induction h as rule: try_catch.induct) simp_all
















lemma first_throw_work_item_console:
  "first_throw (body (work_item (\<lambda>error. [ConsoleError error]) fn args)) = None"
  by (simp add: work_item_def first_throw_try_catch)










text \<open>
  Two failures that the \<open>catch\<close> block does not cover. An error handler that throws
  lets its exception out of the work item: the runner ends with \<open>isRunning\<close> set and the
  \<open>text\<close> enqueued behind is never started. And a method built by \<open>makeMethod\<close> does
  not wait for an async action: the work item of \<open>do\<close> with a callback that throws after
  its first \<open>await\<close> finishes as soon as the call of the callback has returned, and
  nothing is reported.
\<close>

lemma throwing_handler_ends_runner:
  "run [ApiCall Main (work_item (catch_block throwing_handler html_context) failing_op []),
        ApiCall Main text_item, Resume] createQueue
     = \<lparr>priorityQueue = [], mainQueue = [text_item], deferredQueue = [], isRunning = True,
        runner = Dead ''html'' (JError ''handler''),
        trace = [Enqueued Main ''html'', Started Main ''html'',
                 Reported (JError ''boom'') html_context,
                 Aborted ''html'' (JError ''handler''), Enqueued Main ''text'']\<rparr>"
  by (simp add: work_item_def catch_block_def throwing_handler_def failing_op_def
      operation_acts_def sync_part_def text_item_def queue_eval)

lemma async_action_is_not_awaited:
  "run [Resume] (snd (makeMethod ''do'' async_action None ''#a'' (Single (Some (InDocument 0)))
                        [] () createQueue))
     = \<lparr>priorityQueue = [], mainQueue = [], deferredQueue = [], isRunning = False,
        runner = Idle,
        trace = [Enqueued Main ''do'', Started Main ''do'', Did ''do'', Finished ''do'']\<rparr>"
  by (simp add: makeMethod_def applyFunc_def work_item_def async_action_def
      operation_acts_def sync_part_def queue_eval)

section \<open>Properties of the target resolver\<close>

lemma trim_keeps_lt: "startsWith (trim (CHR ''<'' # rest)) ''<''"
proof -
  have ns: "\<not> is_space CHR ''<''" by (simp add: is_space_def)
  then have "take (Suc 0) (rev (dropWhile is_space (rev rest @ [CHR ''<'']))) = [CHR ''<'']"
    by (simp add: dropWhile_append)
  with ns show ?thesis by (simp add: trim_def startsWith_def)
qed

text \<open>
  Claim C7. A string that begins with \<open><\<close> is never looked up in the document: the
  resolver returns the elements the parser makes of it, as new detached elements. With
  \<open>sanitize\<close> not given, or given as true, they come from \<open>setHTML\<close>; only with \<open>sanitize\<close>
  given as false do they come from the \<open>innerHTML\<close> setter (both in index.js and in the
  refactor). Markup of which the parser makes exactly one element yields exactly that one
  new element, whatever the document holds. The entry point \<open>addProxy\<close> passes
  \<open>sanitize = false\<close> itself, so markup given to \<open>$\<close> takes the \<open>innerHTML\<close> path.
\<close>

theorem markup_is_parsed:
  "getDOMElement d (Str (CHR ''<'' # rest)) None all
     = Inr (map (Some \<circ> Detached) (set_html d (CHR ''<'' # rest)))
   \<and> getDOMElement d (Str (CHR ''<'' # rest)) (Some True) all
     = Inr (map (Some \<circ> Detached) (set_html d (CHR ''<'' # rest)))
   \<and> getDOMElement d (Str (CHR ''<'' # rest)) (Some False) all
     = Inr (map (Some \<circ> Detached) (inner_html d (CHR ''<'' # rest)))
   \<and> getDOMElement_refactor d (Str (CHR ''<'' # rest)) \<lparr>opt_sanitize = None, opt_all = all\<rparr>
     = Inr (map (Some \<circ> Detached) (set_html d (CHR ''<'' # rest)))
   \<and> getDOMElement_refactor d (Str (CHR ''<'' # rest)) \<lparr>opt_sanitize = Some False, opt_all = all\<rparr>
     = Inr (map (Some \<circ> Detached) (inner_html d (CHR ''<'' # rest)))
   \<and> (set_html d (CHR ''<'' # rest) = [m] \<longrightarrow>
        getDOMElement (d\<lparr>query_all := q\<rparr>) (Str (CHR ''<'' # rest)) None all = Inr [Some (Detached m)])
   \<and> (inner_html d (CHR ''<'' # rest) = [m] \<longrightarrow>
        getDOMElement (d\<lparr>query_all := q\<rparr>) (Str (CHR ''<'' # rest)) (Some False) all = Inr [Some (Detached m)]
        \<and> addProxy (d\<lparr>query_all := q\<rparr>) type (CHR ''<'' # rest)
            = Inr (addMethods type (CHR ''<'' # rest) (Single (Some (Detached m)))))"
  by (simp add: getDOMElement_def getDOMElement_refactor_def createDOMFromString_def trim_keeps_lt
      addProxy_def first_is_falsy_def second_is_truthy_def)

theorem markup_is_parsed_witness:
  "getDOMElement empty_page (Str ''<div>'') None None = Inr [Some (Detached ''<div></div>'')]"
proof -
  have "set_html empty_page ''<div>'' = [''<div></div>'']" by (simp add: empty_page_def)
  with markup_is_parsed [of empty_page "''div>''" None "''<div></div>''" "query_all empty_page"]
  show ?thesis by simp
qed

text \<open>
  Claim C6, as the code has it. For a selector (a string that is not markup and that the
  browser accepts) matching no element, the resolver returns the empty sequence in
  all-match mode and a sequence of one entry, \<open>null\<close>, in first-match mode. The refactor's
  \<open>createProxy\<close> does not throw: it prints one warning and returns a facade over that
  sequence. \<open>addProxy\<close> of index.js throws.
\<close>

theorem no_match_resolution:
  assumes "\<not> startsWith (trim s) ''<''" and "query_all d s = Some []"
  shows "getDOMElement d (Str s) sanitize (Some True) = Inr []
   \<and> getDOMElement d (Str s) sanitize (Some False) = Inr [None]
   \<and> getDOMElement d (Str s) sanitize None = Inr [None]
   \<and> createProxy d ''$$'' s
       = Inr ([''No elements found for selector: '' @ s], addMethods_refactor s [])
   \<and> (type \<noteq> ''$$'' \<longrightarrow> createProxy d type s
       = Inr ([''No elements found for selector: '' @ s], addMethods_refactor s [None]))
   \<and> addProxy d type s = Inl (Error (''No element found for selector: '' @ s))"
  using assms
  by (simp add: getDOMElement_def getDOMElement_refactor_def querySelector_def querySelectorAll_def
      createProxy_def addProxy_def first_is_falsy_def)

theorem no_match_resolution_witness:
  "createProxy empty_page ''$'' ''#missing''
     = Inr ([''No elements found for selector: #missing''],
            \<lparr>facade_kind = None, facade_target = Many [None], facade_selector = ''#missing'',
             facade_queue = createQueue\<rparr>)
   \<and> addProxy empty_page ''$'' ''#missing'' = Inl (Error ''No element found for selector: #missing'')"
proof -
  have a: "\<not> startsWith (trim ''#missing'') ''<''"
    by (simp add: trim_def startsWith_def is_space_def)
  have b: "query_all empty_page ''#missing'' = Some []" by (simp add: empty_page_def)
  note r = no_match_resolution [OF a b, of None "''$''"]
  from r [THEN conjunct2, THEN conjunct2, THEN conjunct2, THEN conjunct2]
  show ?thesis by (simp add: addMethods_refactor_def)
qed

text \<open>
  The claim as the spec states it fails in first-match mode: for \<open>#missing\<close> on a page
  where nothing matches, the resolver returns \<open>[null]\<close>, which is not the empty sequence.
\<close>

theorem first_match_not_empty_counterexample:
  "query_all empty_page ''#missing'' = Some []
   \<and> getDOMElement empty_page (Str ''#missing'') None None = Inr [None]
   \<and> getDOMElement empty_page (Str ''#missing'') None None \<noteq> Inr []"
  by (simp add: getDOMElement_def querySelector_def empty_page_def trim_def startsWith_def is_space_def)

end
